theory Spec2Isabelle
  imports Main "HOL-Library.AList"
begin

section \<open>The fault injector of eden/common/utils/FaultInjector.cpp\<close>

text \<open>
  The injector keeps two hash maps keyed by key class: the registered faults and the
  blocked checks. Both are association lists here (lookup is \<open>map_of\<close>, assignment through
  a reference is \<open>AList.update\<close>, \<open>erase\<close> is \<open>AList.delete\<close>), because
  \<open>unblockAllImpl\<close> walks over every entry of the second one. The hash map does not say in
  which order it walks; the list fixes one order, and the result of the walk is the same
  for every order (\<open>unblockAllImpl_spec\<close> gives it promise by promise).

  The regular expression library is a collaborator of the code. It is a parameter of the
  model: \<open>regex_compiles E p\<close> says that the constructor of \<open>boost::regex\<close> accepts the pattern
  text \<open>p\<close> (it throws otherwise), \<open>regex_match E v p\<close> is \<open>boost::regex_match\<close> of the whole
  value \<open>v\<close> against the regex compiled from \<open>p\<close>. A compiled regex gives its pattern text
  back through \<open>str()\<close>, so a fault stores the text.

  \<open>size_t\<close> counters are natural numbers: the only subtraction is the decrement of
  \<open>countRemaining\<close>, guarded by \<open>countRemaining > 0\<close>, and the only additions count
  elements held in memory, so no operation wraps around. The \<open>XLOG\<close> trace lines do not
  touch the state and are left out, except the warning of the destructor.
  \<open>waitUntilBlocked\<close> polls the clock and is not modelled.
\<close>

record regex_engine =
  regex_compiles :: "string \<Rightarrow> bool"
  regex_match :: "string \<Rightarrow> string \<Rightarrow> bool"

datatype exception_wrapper =
  RuntimeError string
  | RegexError string
  | OtherException string

datatype faultBehavior =
  Unit
  | Block
  | Delay int "exception_wrapper option"
  | Error exception_wrapper
  | Kill

record fault =
  keyValueRegex :: string
  countRemaining :: nat
  behavior :: faultBehavior

text \<open>
  A promise made by \<open>folly::makePromiseContract\<close> lives in the store \<open>promises\<close> of the
  state, its handle is its index there. The store belongs to the future runtime, not to the
  injector; it is part of the state so that resolving a blocked check can be observed.
\<close>

datatype tryUnit = Value | Exception exception_wrapper

datatype promiseState = Unfulfilled | Fulfilled tryUnit

record blockedCheck =
  keyValue :: string
  promise :: nat

record state =
  enabled :: bool
  faults :: "(string \<times> fault list) list"
  blockedChecks :: "(string \<times> blockedCheck list) list"
  promises :: "promiseState list"

datatype semiFuture = PromiseFuture nat | SleepFuture int "exception_wrapper option"

datatype immediateFuture = Immediate tryUnit | Deferred semiFuture

text \<open>
  How a call ends: it returns, it throws, it calls \<open>abort()\<close>, or the calling thread waits
  for a promise that nobody has resolved yet.
\<close>

datatype 'a completion = Returns 'a | Throws exception_wrapper | Aborts | Waits nat

datatype logMessage = WARN_destroyed_with_pending nat

definition Fault :: "string \<Rightarrow> faultBehavior \<Rightarrow> nat \<Rightarrow> fault" where
  "Fault regex b count = \<lparr>keyValueRegex = regex, countRemaining = count, behavior = b\<rparr>"

definition FaultInjector :: "bool \<Rightarrow> state" where
  "FaultInjector e = \<lparr>enabled = e, faults = [], blockedChecks = [], promises = []\<rparr>"

subsection \<open>findFault\<close>

text \<open>
  The scan of one fault vector. \<open>None\<close>: no fault matched. \<open>Some (b, v)\<close>: the first
  matching fault had behavior \<open>b\<close> and \<open>v\<close> is the vector afterwards (counter decremented,
  fault erased when the counter reached zero).
\<close>

fun scanFaults :: "regex_engine \<Rightarrow> string \<Rightarrow> fault list \<Rightarrow> (faultBehavior \<times> fault list) option" where
  "scanFaults E kv [] = None"
| "scanFaults E kv (f # fs) =
     (if \<not> regex_match E kv (keyValueRegex f) then
        (case scanFaults E kv fs of
           None \<Rightarrow> None
         | Some (b, fs') \<Rightarrow> Some (b, f # fs'))
      else if countRemaining f > 0 then
        (if countRemaining f - 1 = 0 then Some (behavior f, fs)
         else Some (behavior f, f\<lparr>countRemaining := countRemaining f - 1\<rparr> # fs))
      else Some (behavior f, f # fs))"

definition findFault :: "regex_engine \<Rightarrow> string \<Rightarrow> string \<Rightarrow> state \<Rightarrow> faultBehavior \<times> state" where
  "findFault E keyClass kv s =
     (case map_of (faults s) keyClass of
        None \<Rightarrow> (Unit, s)
      | Some faultVector \<Rightarrow>
          (case scanFaults E kv faultVector of
             None \<Rightarrow> (Unit, s)
           | Some (b, faultVector') \<Rightarrow>
               (b, s\<lparr>faults := AList.update keyClass faultVector' (faults s)\<rparr>)))"

subsection \<open>Registration and removal\<close>

definition disabled_error :: exception_wrapper where
  "disabled_error = RuntimeError ''fault injection is disabled''"

text \<open>
  \<open>state->faults[keyClass]\<close> makes the entry of the class when it is missing, before
  \<open>emplace_back\<close> builds the fault; the fault's constructor compiles the pattern.
\<close>

definition injectFault ::
  "regex_engine \<Rightarrow> string \<Rightarrow> string \<Rightarrow> faultBehavior \<Rightarrow> nat \<Rightarrow> state \<Rightarrow> (exception_wrapper + unit) \<times> state" where
  "injectFault E keyClass regex b count s =
     (if \<not> enabled s then (Inl disabled_error, s)
      else
        let faultVector = (case map_of (faults s) keyClass of None \<Rightarrow> [] | Some v \<Rightarrow> v)
        in if \<not> regex_compiles E regex
           then (Inl (RegexError regex), s\<lparr>faults := AList.update keyClass faultVector (faults s)\<rparr>)
           else (Inr (), s\<lparr>faults := AList.update keyClass (faultVector @ [Fault regex b count]) (faults s)\<rparr>))"

definition injectError ::
  "regex_engine \<Rightarrow> string \<Rightarrow> string \<Rightarrow> exception_wrapper \<Rightarrow> nat \<Rightarrow> state \<Rightarrow> (exception_wrapper + unit) \<times> state" where
  "injectError E keyClass regex error count s = injectFault E keyClass regex (Error error) count s"

definition injectBlock ::
  "regex_engine \<Rightarrow> string \<Rightarrow> string \<Rightarrow> nat \<Rightarrow> state \<Rightarrow> (exception_wrapper + unit) \<times> state" where
  "injectBlock E keyClass regex count s = injectFault E keyClass regex Block count s"

definition injectDelay ::
  "regex_engine \<Rightarrow> string \<Rightarrow> string \<Rightarrow> int \<Rightarrow> nat \<Rightarrow> state \<Rightarrow> (exception_wrapper + unit) \<times> state" where
  "injectDelay E keyClass regex duration count s = injectFault E keyClass regex (Delay duration None) count s"

definition injectKill ::
  "regex_engine \<Rightarrow> string \<Rightarrow> string \<Rightarrow> nat \<Rightarrow> state \<Rightarrow> (exception_wrapper + unit) \<times> state" where
  "injectKill E keyClass regex count s = injectFault E keyClass regex Kill count s"

definition injectDelayedError ::
  "regex_engine \<Rightarrow> string \<Rightarrow> string \<Rightarrow> int \<Rightarrow> exception_wrapper \<Rightarrow> nat \<Rightarrow> state \<Rightarrow> (exception_wrapper + unit) \<times> state" where
  "injectDelayedError E keyClass regex duration error count s =
     injectFault E keyClass regex (Delay duration (Some error)) count s"

definition injectNoop ::
  "regex_engine \<Rightarrow> string \<Rightarrow> string \<Rightarrow> nat \<Rightarrow> state \<Rightarrow> (exception_wrapper + unit) \<times> state" where
  "injectNoop E keyClass regex count s = injectFault E keyClass regex Unit count s"

text \<open>
  The scan of \<open>removeFault\<close>: the vector without the first fault whose pattern text is
  the given string, \<open>None\<close> when there is no such fault.
\<close>

fun eraseFirst :: "string \<Rightarrow> fault list \<Rightarrow> fault list option" where
  "eraseFirst regex [] = None"
| "eraseFirst regex (f # fs) =
     (if keyValueRegex f = regex then Some fs
      else (case eraseFirst regex fs of None \<Rightarrow> None | Some fs' \<Rightarrow> Some (f # fs')))"

definition removeFault :: "string \<Rightarrow> string \<Rightarrow> state \<Rightarrow> bool \<times> state" where
  "removeFault keyClass regex s =
     (case map_of (faults s) keyClass of
        None \<Rightarrow> (False, s)
      | Some faultVector \<Rightarrow>
          (case eraseFirst regex faultVector of
             None \<Rightarrow> (False, s)
           | Some faultVector' \<Rightarrow>
               (True,
                if faultVector' = [] then s\<lparr>faults := AList.delete keyClass (faults s)\<rparr>
                else s\<lparr>faults := AList.update keyClass faultVector' (faults s)\<rparr>)))"

subsection \<open>The checks\<close>

definition addBlockedFault :: "string \<Rightarrow> string \<Rightarrow> state \<Rightarrow> nat \<times> state" where
  "addBlockedFault keyClass kv s =
     (let p = length (promises s);
          blocked = (case map_of (blockedChecks s) keyClass of None \<Rightarrow> [] | Some v \<Rightarrow> v)
      in (p, s\<lparr>blockedChecks :=
                  AList.update keyClass (blocked @ [\<lparr>keyValue = kv, promise = p\<rparr>]) (blockedChecks s),
                promises := promises s @ [Unfulfilled]\<rparr>))"

definition checkAsyncImpl ::
  "regex_engine \<Rightarrow> string \<Rightarrow> string \<Rightarrow> state \<Rightarrow> immediateFuture completion \<times> state" where
  "checkAsyncImpl E keyClass kv s =
     (case findFault E keyClass kv s of
        (b, s1) \<Rightarrow>
          (case b of
             Unit \<Rightarrow> (Returns (Immediate Value), s1)
           | Block \<Rightarrow>
               (case addBlockedFault keyClass kv s1 of
                  (p, s2) \<Rightarrow> (Returns (Deferred (PromiseFuture p)), s2))
           | Delay duration error \<Rightarrow> (Returns (Deferred (SleepFuture duration error)), s1)
           | Error error \<Rightarrow> (Returns (Immediate (Exception error)), s1)
           | Kill \<Rightarrow> (Aborts, s1)))"

text \<open>
  \<open>getTry\<close> waits for the future. A sleeping future ends after its duration (time is not
  part of the model); a future on a promise ends once the promise is resolved.
\<close>

fun getTry :: "immediateFuture \<Rightarrow> promiseState list \<Rightarrow> tryUnit completion" where
  "getTry (Immediate t) ps = Returns t"
| "getTry (Deferred (SleepFuture duration None)) ps = Returns Value"
| "getTry (Deferred (SleepFuture duration (Some error))) ps = Returns (Exception error)"
| "getTry (Deferred (PromiseFuture p)) ps =
     (if p < length ps then (case ps ! p of Fulfilled t \<Rightarrow> Returns t | Unfulfilled \<Rightarrow> Waits p)
      else Waits p)"

definition checkTryImpl ::
  "regex_engine \<Rightarrow> string \<Rightarrow> string \<Rightarrow> state \<Rightarrow> tryUnit completion \<times> state" where
  "checkTryImpl E keyClass kv s =
     (case checkAsyncImpl E keyClass kv s of
        (Returns fut, s1) \<Rightarrow> (getTry fut (promises s1), s1)
      | (Throws e, s1) \<Rightarrow> (Throws e, s1)
      | (Aborts, s1) \<Rightarrow> (Aborts, s1)
      | (Waits p, s1) \<Rightarrow> (Waits p, s1))"

definition checkImpl ::
  "regex_engine \<Rightarrow> string \<Rightarrow> string \<Rightarrow> state \<Rightarrow> unit completion \<times> state" where
  "checkImpl E keyClass kv s =
     (case checkTryImpl E keyClass kv s of
        (Returns Value, s1) \<Rightarrow> (Returns (), s1)
      | (Returns (Exception e), s1) \<Rightarrow> (Throws e, s1)
      | (Throws e, s1) \<Rightarrow> (Throws e, s1)
      | (Aborts, s1) \<Rightarrow> (Aborts, s1)
      | (Waits p, s1) \<Rightarrow> (Waits p, s1))"

subsection \<open>Releasing blocked checks\<close>

text \<open>
  The loop of \<open>extractBlockedChecks\<close> over the vector \<open>blocked\<close>: \<open>readIter\<close> and
  \<open>writeIter\<close> are indices, \<open>end\<close> is the length of the vector, which the loop does not
  change. An element that was moved from is not read again.
\<close>

function extractLoop ::
  "(string \<Rightarrow> bool) \<Rightarrow> nat \<Rightarrow> nat \<Rightarrow> blockedCheck list \<Rightarrow> blockedCheck list
     \<Rightarrow> nat \<times> blockedCheck list \<times> blockedCheck list" where
  "extractLoop matches readIter writeIter blocked results =
     (if readIter < length blocked then
        (if matches (keyValue (blocked ! readIter))
         then extractLoop matches (readIter + 1) writeIter blocked (results @ [blocked ! readIter])
         else extractLoop matches (readIter + 1) (writeIter + 1)
                (if readIter \<noteq> writeIter then blocked[writeIter := blocked ! readIter] else blocked)
                results)
      else (writeIter, blocked, results))"
  by pat_completeness auto
termination
  by (relation "measure (\<lambda>(matches, readIter, writeIter, blocked, results). length blocked - readIter)") auto

definition extractBlockedChecks ::
  "regex_engine \<Rightarrow> string \<Rightarrow> string \<Rightarrow> state \<Rightarrow> (exception_wrapper + blockedCheck list) \<times> state" where
  "extractBlockedChecks E keyClass regex s =
     (case map_of (blockedChecks s) keyClass of
        None \<Rightarrow> (Inr [], s)
      | Some blocked \<Rightarrow>
          if \<not> regex_compiles E regex then (Inl (RegexError regex), s)
          else
            (case extractLoop (\<lambda>v. regex_match E v regex) 0 0 blocked [] of
               (writeIter, blocked', results) \<Rightarrow>
                 (Inr results,
                  if writeIter = 0 then s\<lparr>blockedChecks := AList.delete keyClass (blockedChecks s)\<rparr>
                  else s\<lparr>blockedChecks :=
                           AList.update keyClass (take writeIter blocked') (blockedChecks s)\<rparr>)))"

text \<open>
  The loops \<open>for (auto& match : matches)\<close> that call \<open>setValue\<close> or \<open>setException\<close>
  on the promise of every extracted check. A promise can be set once only; the blocked
  checks hold distinct promises that nobody has set (\<open>blocked_ok\<close> below), so each promise
  is set once here.
\<close>

fun setAll :: "tryUnit \<Rightarrow> blockedCheck list \<Rightarrow> promiseState list \<Rightarrow> promiseState list" where
  "setAll t [] ps = ps"
| "setAll t (m # ms) ps = setAll t ms (ps[promise m := Fulfilled t])"

definition unblock :: "regex_engine \<Rightarrow> string \<Rightarrow> string \<Rightarrow> state \<Rightarrow> (exception_wrapper + nat) \<times> state" where
  "unblock E keyClass regex s =
     (case extractBlockedChecks E keyClass regex s of
        (Inl e, s1) \<Rightarrow> (Inl e, s1)
      | (Inr matches, s1) \<Rightarrow>
          (Inr (length matches), s1\<lparr>promises := setAll Value matches (promises s1)\<rparr>))"

definition unblockWithError ::
  "regex_engine \<Rightarrow> string \<Rightarrow> string \<Rightarrow> exception_wrapper \<Rightarrow> state \<Rightarrow> (exception_wrapper + nat) \<times> state" where
  "unblockWithError E keyClass regex error s =
     (case extractBlockedChecks E keyClass regex s of
        (Inl e, s1) \<Rightarrow> (Inl e, s1)
      | (Inr matches, s1) \<Rightarrow>
          (Inr (length matches), s1\<lparr>promises := setAll (Exception error) matches (promises s1)\<rparr>))"

text \<open>The loop of \<open>unblockAllImpl\<close> over the entries of the map that was swapped out.\<close>

fun unblockLoop ::
  "exception_wrapper option \<Rightarrow> (string \<times> blockedCheck list) list \<Rightarrow> nat \<Rightarrow> promiseState list
     \<Rightarrow> nat \<times> promiseState list" where
  "unblockLoop error [] numUnblocked ps = (numUnblocked, ps)"
| "unblockLoop error (classEntry # rest) numUnblocked ps =
     unblockLoop error rest (numUnblocked + length (snd classEntry))
       (setAll (case error of Some e \<Rightarrow> Exception e | None \<Rightarrow> Value) (snd classEntry) ps)"

definition unblockAllImpl :: "exception_wrapper option \<Rightarrow> state \<Rightarrow> nat \<times> state" where
  "unblockAllImpl error s =
     (case unblockLoop error (blockedChecks s) 0 (promises s) of
        (numUnblocked, ps) \<Rightarrow> (numUnblocked, s\<lparr>blockedChecks := [], promises := ps\<rparr>))"

definition unblockAll :: "state \<Rightarrow> nat \<times> state" where
  "unblockAll s = unblockAllImpl None s"

definition unblockAllWithError :: "exception_wrapper \<Rightarrow> state \<Rightarrow> nat \<times> state" where
  "unblockAllWithError error s = unblockAllImpl (Some error) s"

definition destroyed_error :: exception_wrapper where
  "destroyed_error = RuntimeError ''FaultInjector destroyed''"

text \<open>The destructor: the state it leaves and the warning it logs, if any.\<close>

definition destructor :: "state \<Rightarrow> logMessage list \<times> state" where
  "destructor s =
     (case unblockAllImpl (Some destroyed_error) s of
        (numUnblocked, s') \<Rightarrow>
          (if numUnblocked > 0 then [WARN_destroyed_with_pending numUnblocked] else [], s'))"

definition getBlockedFaults :: "string \<Rightarrow> state \<Rightarrow> string list" where
  "getBlockedFaults keyClass s =
     (case map_of (blockedChecks s) keyClass of
        None \<Rightarrow> []
      | Some blocked \<Rightarrow> map keyValue blocked)"

subsection \<open>Call sequences and example data\<close>

text \<open>Successive \<open>findFault\<close> calls for one key class, with the behaviors they return.\<close>

fun findFaultCalls :: "regex_engine \<Rightarrow> string \<Rightarrow> string list \<Rightarrow> state \<Rightarrow> faultBehavior list \<times> state" where
  "findFaultCalls E keyClass [] s = ([], s)"
| "findFaultCalls E keyClass (kv # kvs) s =
     (case findFault E keyClass kv s of
        (b, s1) \<Rightarrow> (case findFaultCalls E keyClass kvs s1 of (bs, s2) \<Rightarrow> (b # bs, s2)))"

text \<open>How many of the values match the pattern of a fault.\<close>

definition hits :: "regex_engine \<Rightarrow> fault \<Rightarrow> string list \<Rightarrow> nat" where
  "hits E f kvs = length (filter (\<lambda>kv. regex_match E kv (keyValueRegex f)) kvs)"

text \<open>
  A small engine for the examples. It knows the patterns \<open>.*\<close> and \<open>^/foo$\<close> and plain
  words of lower-case letters, digits and \<open>/\<close>, on which it agrees with
  \<open>boost::regex_match\<close>; it refuses every other pattern.
\<close>

definition demo_engine :: regex_engine where
  "demo_engine =
     \<lparr>regex_compiles = (\<lambda>p. p = ''.*'' \<or> p = ''^/foo$'' \<or>
                           list_all (\<lambda>c. c \<in> set ''abcdefghijklmnopqrstuvwxyz0123456789/'') p),
      regex_match = (\<lambda>v p. if p = ''.*'' then True
                            else if p = ''^/foo$'' then v = ''/foo''
                            else v = p)\<rparr>"

definition shadow_state :: state where
  "shadow_state =
     snd (injectError demo_engine ''open'' ''^/foo$'' (RuntimeError ''second'') 1
       (snd (injectError demo_engine ''open'' ''.*'' (RuntimeError ''first'') 0 (FaultInjector True))))"

definition two_faults_state :: state where
  "two_faults_state =
     snd (injectBlock demo_engine ''open'' ''bar'' 0
       (snd (injectError demo_engine ''open'' ''^/foo$'' (RuntimeError ''injected'') 2 (FaultInjector True))))"

text \<open>More example states, all built through the operations of the injector.\<close>

definition expiring_state :: state where
  "expiring_state =
     snd (injectError demo_engine ''open'' ''^/foo$'' (RuntimeError ''injected'') 1 (FaultInjector True))"

definition noop_state :: state where
  "noop_state =
     snd (injectKill demo_engine ''open'' ''^/foo$'' 0
       (snd (injectNoop demo_engine ''open'' ''.*'' 1 (FaultInjector True))))"

definition one_blocked_state :: state where
  "one_blocked_state =
     snd (checkAsyncImpl demo_engine ''read'' ''f1''
       (snd (injectBlock demo_engine ''read'' ''.*'' 0 (FaultInjector True))))"

definition blocked_state :: state where
  "blocked_state =
     snd (checkAsyncImpl demo_engine ''open'' ''bar''
       (snd (injectBlock demo_engine ''open'' ''bar'' 1
         (snd (checkAsyncImpl demo_engine ''read'' ''f1''
           (snd (checkAsyncImpl demo_engine ''read'' ''f2'' one_blocked_state)))))))"

definition same_error_state :: state where
  "same_error_state =
     snd (checkAsyncImpl demo_engine ''read'' ''f1''
       (snd (injectBlock demo_engine ''read'' ''.*'' 0
         (snd (injectError demo_engine ''open'' ''.*'' (RuntimeError ''FaultInjector destroyed'') 0
           (FaultInjector True))))))"

definition shadowed_noop_state :: state where
  "shadowed_noop_state =
     snd (injectKill demo_engine ''open'' ''^/foo$'' 0
       (snd (injectNoop demo_engine ''open'' ''.*'' 1
         (snd (injectError demo_engine ''open'' ''.*'' (RuntimeError ''first'') 0
           (FaultInjector True))))))"

subsection \<open>Invariants and specifications\<close>

text \<open>No class entry of either map holds an empty vector.\<close>

definition no_empty_class :: "state \<Rightarrow> bool" where
  "no_empty_class s =
     (list_all (\<lambda>classEntry. snd classEntry \<noteq> []) (faults s) \<and>
      list_all (\<lambda>classEntry. snd classEntry \<noteq> []) (blockedChecks s))"

text \<open>
  The blocked checks of all classes, and the condition under which they can be resolved:
  a map has no two entries for one class, every blocked check owns a promise of its own,
  and that promise exists and has not been resolved. \<open>reachable_blocked_ok\<close> below shows
  that the operations keep this condition.
\<close>

definition allBlocked :: "(string \<times> blockedCheck list) list \<Rightarrow> blockedCheck list" where
  "allBlocked m = concat (map snd m)"

definition blocked_ok :: "state \<Rightarrow> bool" where
  "blocked_ok s =
     (distinct (map fst (blockedChecks s)) \<and>
      distinct (map promise (allBlocked (blockedChecks s))) \<and>
      list_all (\<lambda>c. promise c < length (promises s) \<and> promises s ! promise c = Unfulfilled)
        (allBlocked (blockedChecks s)))"

text \<open>
  What \<open>unblock\<close> is to do with the blocked checks of a class, in the words of its
  description: the checks whose value matches the pattern, and the others, each in the
  order they had.
\<close>

definition matchingChecks :: "regex_engine \<Rightarrow> string \<Rightarrow> blockedCheck list \<Rightarrow> blockedCheck list" where
  "matchingChecks E regex blocked = filter (\<lambda>c. regex_match E (keyValue c) regex) blocked"

definition otherChecks :: "regex_engine \<Rightarrow> string \<Rightarrow> blockedCheck list \<Rightarrow> blockedCheck list" where
  "otherChecks E regex blocked = filter (\<lambda>c. \<not> regex_match E (keyValue c) regex) blocked"

text \<open>The value that \<open>unblockAllImpl\<close> gives to every promise.\<close>

definition resolution :: "exception_wrapper option \<Rightarrow> tryUnit" where
  "resolution error = (case error of Some e \<Rightarrow> Exception e | None \<Rightarrow> Value)"

text \<open>
  The states that the operations produce from a new injector. \<open>findFault\<close> and
  \<open>addBlockedFault\<close> are steps of their own: \<open>checkAsyncImpl\<close> gives up the lock between
  them, so that steps of other callers can come in between.
\<close>

inductive reachable :: "regex_engine \<Rightarrow> state \<Rightarrow> bool" for E :: regex_engine where
  constructed: "reachable E (FaultInjector flag)"
| injected: "reachable E s \<Longrightarrow> reachable E (snd (injectFault E keyClass regex b count s))"
| removed: "reachable E s \<Longrightarrow> reachable E (snd (removeFault keyClass regex s))"
| checked: "reachable E s \<Longrightarrow> reachable E (snd (checkAsyncImpl E keyClass kv s))"
| found: "reachable E s \<Longrightarrow> reachable E (snd (findFault E keyClass kv s))"
| blocked: "reachable E s \<Longrightarrow> reachable E (snd (addBlockedFault keyClass kv s))"
| unblocked: "reachable E s \<Longrightarrow> reachable E (snd (unblock E keyClass regex s))"
| unblocked_error: "reachable E s \<Longrightarrow> reachable E (snd (unblockWithError E keyClass regex cause s))"
| unblocked_all: "reachable E s \<Longrightarrow> reachable E (snd (unblockAllImpl error s))"

section \<open>Lemmas\<close>

subsection \<open>The example states\<close>

lemma demo_engine_simps:
  "regex_compiles demo_engine ''.*''"
  "regex_compiles demo_engine ''^/foo$''"
  "regex_compiles demo_engine ''bar''"
  "regex_compiles demo_engine ''f1''"
  "regex_match demo_engine v ''.*''"
  "regex_match demo_engine v ''^/foo$'' = (v = ''/foo'')"
  "regex_match demo_engine v ''bar'' = (v = ''bar'')"
  "regex_match demo_engine v ''f1'' = (v = ''f1'')"
  by (simp_all add: demo_engine_def)

lemma shadow_state_eq:
  "shadow_state =
     \<lparr>enabled = True,
      faults = [(''open'', [Fault ''.*'' (Error (RuntimeError ''first'')) 0,
                            Fault ''^/foo$'' (Error (RuntimeError ''second'')) 1])],
      blockedChecks = [], promises = []\<rparr>"
  by (simp add: shadow_state_def injectError_def injectFault_def FaultInjector_def demo_engine_simps)

lemma two_faults_state_eq:
  "two_faults_state =
     \<lparr>enabled = True,
      faults = [(''open'', [Fault ''^/foo$'' (Error (RuntimeError ''injected'')) 2,
                            Fault ''bar'' Block 0])],
      blockedChecks = [], promises = []\<rparr>"
  by (simp add: two_faults_state_def injectError_def injectBlock_def injectFault_def FaultInjector_def
      demo_engine_simps)

lemma expiring_state_eq:
  "expiring_state =
     \<lparr>enabled = True,
      faults = [(''open'', [Fault ''^/foo$'' (Error (RuntimeError ''injected'')) 1])],
      blockedChecks = [], promises = []\<rparr>"
  by (simp add: expiring_state_def injectError_def injectFault_def FaultInjector_def demo_engine_simps)

lemma noop_state_eq:
  "noop_state =
     \<lparr>enabled = True,
      faults = [(''open'', [Fault ''.*'' Unit 1, Fault ''^/foo$'' Kill 0])],
      blockedChecks = [], promises = []\<rparr>"
  by (simp add: noop_state_def injectKill_def injectNoop_def injectFault_def FaultInjector_def
      demo_engine_simps)

lemma one_blocked_state_eq:
  "one_blocked_state =
     \<lparr>enabled = True, faults = [(''read'', [Fault ''.*'' Block 0])],
      blockedChecks = [(''read'', [\<lparr>keyValue = ''f1'', promise = 0\<rparr>])],
      promises = [Unfulfilled]\<rparr>"
  by (simp add: one_blocked_state_def checkAsyncImpl_def findFault_def addBlockedFault_def
      injectBlock_def injectFault_def FaultInjector_def Fault_def demo_engine_simps)

lemma blocked_state_eq:
  "blocked_state =
     \<lparr>enabled = True, faults = [(''read'', [Fault ''.*'' Block 0]), (''open'', [])],
      blockedChecks =
        [(''read'', [\<lparr>keyValue = ''f1'', promise = 0\<rparr>, \<lparr>keyValue = ''f2'', promise = 1\<rparr>,
                     \<lparr>keyValue = ''f1'', promise = 2\<rparr>]),
         (''open'', [\<lparr>keyValue = ''bar'', promise = 3\<rparr>])],
      promises = [Unfulfilled, Unfulfilled, Unfulfilled, Unfulfilled]\<rparr>"
  by (simp add: blocked_state_def one_blocked_state_eq checkAsyncImpl_def findFault_def
      addBlockedFault_def injectBlock_def injectFault_def Fault_def demo_engine_simps)

lemma blocked_ok_examples: "blocked_ok one_blocked_state" "blocked_ok blocked_state"
  by (simp_all add: blocked_ok_def allBlocked_def one_blocked_state_eq blocked_state_eq)

lemma same_error_state_eq:
  "same_error_state =
     \<lparr>enabled = True,
      faults = [(''open'', [Fault ''.*'' (Error (RuntimeError ''FaultInjector destroyed'')) 0]),
                (''read'', [Fault ''.*'' Block 0])],
      blockedChecks = [(''read'', [\<lparr>keyValue = ''f1'', promise = 0\<rparr>])],
      promises = [Unfulfilled]\<rparr>"
  by (simp add: same_error_state_def checkAsyncImpl_def findFault_def addBlockedFault_def
      injectBlock_def injectError_def injectFault_def FaultInjector_def Fault_def demo_engine_simps)

lemma shadowed_noop_state_eq:
  "shadowed_noop_state =
     \<lparr>enabled = True,
      faults = [(''open'', [Fault ''.*'' (Error (RuntimeError ''first'')) 0, Fault ''.*'' Unit 1,
                            Fault ''^/foo$'' Kill 0])],
      blockedChecks = [], promises = []\<rparr>"
  by (simp add: shadowed_noop_state_def injectKill_def injectNoop_def injectError_def injectFault_def
      FaultInjector_def demo_engine_simps)

subsection \<open>The scan of the faults of a class\<close>

lemma scanFaults_find:
  "map_option fst (scanFaults E kv fs) =
   map_option behavior (find (\<lambda>f. regex_match E kv (keyValueRegex f)) fs)"
  by (induction fs) (auto split: option.splits)

lemma scanFaults_no_match:
  "\<forall>g\<in>set fs. \<not> regex_match E kv (keyValueRegex g) \<Longrightarrow> scanFaults E kv fs = None"
  by (induction fs) auto

lemma scanFaults_skip:
  "\<forall>g\<in>set pre. \<not> regex_match E kv (keyValueRegex g) \<Longrightarrow>
   scanFaults E kv (pre @ fs) =
     (case scanFaults E kv fs of None \<Rightarrow> None | Some (b, fs') \<Rightarrow> Some (b, pre @ fs'))"
  by (induction pre) (auto split: option.splits)

lemma scanFaults_hit:
  assumes "\<forall>g\<in>set pre. \<not> regex_match E kv (keyValueRegex g)"
    and "regex_match E kv (keyValueRegex f)"
  shows "scanFaults E kv (pre @ f # post) =
     Some (behavior f,
           pre @ (if countRemaining f = 0 then [f]
                  else if countRemaining f = 1 then []
                  else [f\<lparr>countRemaining := countRemaining f - 1\<rparr>]) @ post)"
  using assms by (simp add: scanFaults_skip)

lemma findFault_class:
  assumes "map_of (faults s) keyClass = Some fv"
  shows "fst (findFault E keyClass kv s) = (case scanFaults E kv fv of None \<Rightarrow> Unit | Some (b, fv') \<Rightarrow> b)"
    and "map_of (faults (snd (findFault E keyClass kv s))) keyClass =
           Some (case scanFaults E kv fv of None \<Rightarrow> fv | Some (b, fv') \<Rightarrow> fv')"
  using assms by (auto simp: findFault_def update_conv' split: option.splits)

lemma findFaultCalls_bounded:
  assumes "map_of (faults s) kc = Some (pre @ f # post)"
    and "0 < countRemaining f" and "length vs \<le> countRemaining f"
    and "\<forall>v\<in>set vs. regex_match E v (keyValueRegex f) \<and> (\<forall>g\<in>set pre. \<not> regex_match E v (keyValueRegex g))"
  shows "fst (findFaultCalls E kc vs s) = replicate (length vs) (behavior f) \<and>
         map_of (faults (snd (findFaultCalls E kc vs s))) kc =
           Some (pre @ (if length vs < countRemaining f
                        then [f\<lparr>countRemaining := countRemaining f - length vs\<rparr>] else []) @ post)"
  using assms
proof (induction vs arbitrary: s f)
  case Nil
  then show ?case by simp
next
  case (Cons v vs)
  let ?s1 = "snd (findFault E kc v s)"
  have hit: "scanFaults E v (pre @ f # post) =
     Some (behavior f,
           pre @ (if countRemaining f = 0 then [f]
                  else if countRemaining f = 1 then []
                  else [f\<lparr>countRemaining := countRemaining f - 1\<rparr>]) @ post)"
    using Cons.prems(4) by (intro scanFaults_hit) auto
  have b: "fst (findFault E kc v s) = behavior f"
    using findFault_class(1)[OF Cons.prems(1), of E v] hit by simp
  have l: "map_of (faults ?s1) kc =
     Some (pre @ (if countRemaining f = 1 then [] else [f\<lparr>countRemaining := countRemaining f - 1\<rparr>]) @ post)"
    using findFault_class(2)[OF Cons.prems(1), of E v] hit Cons.prems(2) by simp
  have unfold: "findFaultCalls E kc (v # vs) s =
      (fst (findFault E kc v s) # fst (findFaultCalls E kc vs ?s1), snd (findFaultCalls E kc vs ?s1))"
    by (simp split: prod.splits)
  show ?case
  proof (cases "countRemaining f = 1")
    case True
    with Cons.prems(3) have "vs = []" by simp
    with True b l unfold show ?thesis by simp
  next
    case False
    let ?f' = "f\<lparr>countRemaining := countRemaining f - 1\<rparr>"
    have l': "map_of (faults ?s1) kc = Some (pre @ ?f' # post)" using l False by simp
    have c': "0 < countRemaining ?f'" using False Cons.prems(2) by simp
    have n': "length vs \<le> countRemaining ?f'" using Cons.prems(3) by simp
    have m': "\<forall>v\<in>set vs. regex_match E v (keyValueRegex ?f') \<and> (\<forall>g\<in>set pre. \<not> regex_match E v (keyValueRegex g))"
      using Cons.prems(4) by simp
    from Cons.IH[OF l' c' n' m'] b unfold show ?thesis by (auto simp: Suc_diff_Suc)
  qed
qed

lemma findFault_unbounded_hit:
  assumes "map_of (faults s) kc = Some (pre @ f # post)"
    and "countRemaining f = 0"
    and "regex_match E v (keyValueRegex f)"
    and "\<forall>g\<in>set pre. \<not> regex_match E v (keyValueRegex g)"
  shows "findFault E kc v s = (behavior f, s)"
proof -
  have "scanFaults E v (pre @ f # post) = Some (behavior f, pre @ f # post)"
    using scanFaults_hit[OF assms(4) assms(3), of post] assms(2) by simp
  then show ?thesis
    using assms(1) by (simp add: findFault_def update_triv)
qed

lemma findFaultCalls_unbounded:
  assumes "map_of (faults s) kc = Some (pre @ f # post)"
    and "countRemaining f = 0"
    and "\<forall>v\<in>set vs. regex_match E v (keyValueRegex f) \<and> (\<forall>g\<in>set pre. \<not> regex_match E v (keyValueRegex g))"
  shows "findFaultCalls E kc vs s = (replicate (length vs) (behavior f), s)"
  using assms
proof (induction vs)
  case Nil
  then show ?case by simp
next
  case (Cons v vs)
  have "findFault E kc v s = (behavior f, s)"
    using Cons.prems by (intro findFault_unbounded_hit) auto
  with Cons show ?case by simp
qed

lemma scanFaults_keeps_unbounded:
  "scanFaults E kv fs = Some (b, fs') \<Longrightarrow> g \<in> set fs \<Longrightarrow> countRemaining g = 0 \<Longrightarrow> g \<in> set fs'"
  by (induction fs arbitrary: fs') (auto split: if_splits option.splits)

lemma findFault_keeps_unbounded:
  assumes "map_of (faults s) kc = Some fv" and "g \<in> set fv" and "countRemaining g = 0"
  shows "\<exists>fv'. map_of (faults (snd (findFault E kc kv s))) kc = Some fv' \<and> g \<in> set fv'"
  using assms findFault_class(2)[OF assms(1), of E kv]
  by (auto split: option.splits dest: scanFaults_keeps_unbounded)

lemma scanFaults_frame:
  "\<not> regex_match E kv (keyValueRegex f) \<or> (\<exists>g\<in>set pre. regex_match E kv (keyValueRegex g)) \<Longrightarrow>
   scanFaults E kv (pre @ f # post) = Some (b, fv') \<Longrightarrow>
   \<exists>pre' post'. fv' = pre' @ f # post' \<and> set (map keyValueRegex pre') \<subseteq> set (map keyValueRegex pre)"
proof (induction pre arbitrary: fv')
  case Nil
  then show ?case by (auto split: option.splits intro: exI[of _ "[]"])
next
  case (Cons g pre)
  show ?case
  proof (cases "regex_match E kv (keyValueRegex g)")
    case True
    with Cons.prems(2) have
      "fv' = pre @ f # post \<or> fv' = g # pre @ f # post \<or>
       fv' = g\<lparr>countRemaining := countRemaining g - 1\<rparr> # pre @ f # post"
      by (auto split: if_splits)
    then show ?thesis
    proof (elim disjE)
      assume "fv' = pre @ f # post"
      then show ?thesis by (intro exI[of _ pre] exI[of _ post]) auto
    next
      assume "fv' = g # pre @ f # post"
      then show ?thesis by (intro exI[of _ "g # pre"] exI[of _ post]) auto
    next
      assume "fv' = g\<lparr>countRemaining := countRemaining g - 1\<rparr> # pre @ f # post"
      then show ?thesis
        by (intro exI[of _ "g\<lparr>countRemaining := countRemaining g - 1\<rparr> # pre"] exI[of _ post]) auto
    qed
  next
    case False
    with Cons.prems(2) obtain fv'' where s: "scanFaults E kv (pre @ f # post) = Some (b, fv'')"
      and e: "fv' = g # fv''"
      by (auto split: option.splits)
    have "\<not> regex_match E kv (keyValueRegex f) \<or> (\<exists>g\<in>set pre. regex_match E kv (keyValueRegex g))"
      using Cons.prems(1) False by auto
    from Cons.IH[OF this s] obtain pre' post' where
      "fv'' = pre' @ f # post'" "set (map keyValueRegex pre') \<subseteq> set (map keyValueRegex pre)"
      by blast
    with e show ?thesis by (intro exI[of _ "g # pre'"] exI[of _ post']) auto
  qed
qed

lemma findFault_frame:
  assumes "map_of (faults s) kc = Some (pre @ f # post)"
    and "\<not> regex_match E kv (keyValueRegex f) \<or> (\<exists>g\<in>set pre. regex_match E kv (keyValueRegex g))"
  shows "\<exists>pre' post'. map_of (faults (snd (findFault E kc kv s))) kc = Some (pre' @ f # post') \<and>
           set (map keyValueRegex pre') \<subseteq> set (map keyValueRegex pre)"
proof (cases "scanFaults E kv (pre @ f # post)")
  case None
  then show ?thesis
    using findFault_class(2)[OF assms(1), of E kv] by (intro exI[of _ pre] exI[of _ post]) simp
next
  case (Some r)
  then obtain b fv' where r: "scanFaults E kv (pre @ f # post) = Some (b, fv')" by (cases r) auto
  from scanFaults_frame[OF assms(2) r] obtain pre' post' where
    "fv' = pre' @ f # post'" "set (map keyValueRegex pre') \<subseteq> set (map keyValueRegex pre)" by blast
  then show ?thesis
    using findFault_class(2)[OF assms(1), of E kv] r by (intro exI[of _ pre'] exI[of _ post']) simp
qed

lemma findFaultCalls_Cons:
  "findFaultCalls E kc (v # vs) s =
     (fst (findFault E kc v s) # fst (findFaultCalls E kc vs (snd (findFault E kc v s))),
      snd (findFaultCalls E kc vs (snd (findFault E kc v s))))"
  by (simp split: prod.splits)

lemma hits_simps:
  "hits E f [] = 0"
  "hits E f (v # vs) = (if regex_match E v (keyValueRegex f) then Suc (hits E f vs) else hits E f vs)"
  "hits E (f\<lparr>countRemaining := n\<rparr>) vs = hits E f vs"
  by (simp_all add: hits_def)

lemma findFaultCalls_interleaved:
  assumes "map_of (faults s) kc = Some (pre @ f # post)"
    and "0 < countRemaining f"
    and "\<forall>v\<in>set vs. regex_match E v (keyValueRegex f) \<longrightarrow>
           (\<forall>r\<in>set (map keyValueRegex pre). \<not> regex_match E v r)"
  shows "(\<forall>i<length vs. regex_match E (vs ! i) (keyValueRegex f) \<and>
            hits E f (take i vs) < countRemaining f \<longrightarrow>
            fst (findFaultCalls E kc vs s) ! i = behavior f) \<and>
         (hits E f vs < countRemaining f \<longrightarrow>
            (\<exists>pre' post'. map_of (faults (snd (findFaultCalls E kc vs s))) kc =
               Some (pre' @ f\<lparr>countRemaining := countRemaining f - hits E f vs\<rparr> # post') \<and>
               set (map keyValueRegex pre') \<subseteq> set (map keyValueRegex pre)))"
  using assms
proof (induction vs arbitrary: s pre f post)
  case Nil
  have "\<exists>pre' post'. map_of (faults s) kc = Some (pre' @ f # post') \<and>
          set (map keyValueRegex pre') \<subseteq> set (map keyValueRegex pre)"
    using Nil.prems(1) by (intro exI[of _ pre] exI[of _ post]) simp
  then show ?case by (simp add: hits_simps)
next
  case (Cons v vs)
  let ?s1 = "snd (findFault E kc v s)"
  let ?N = "countRemaining f"
  show ?case
  proof (cases "regex_match E v (keyValueRegex f)")
    case True
    then have nopre: "\<forall>g\<in>set pre. \<not> regex_match E v (keyValueRegex g)"
      using Cons.prems(3) by simp
    have hit: "scanFaults E v (pre @ f # post) =
       Some (behavior f,
             pre @ (if ?N = 0 then [f] else if ?N = 1 then []
                    else [f\<lparr>countRemaining := ?N - 1\<rparr>]) @ post)"
      using nopre True by (rule scanFaults_hit)
    have b: "fst (findFault E kc v s) = behavior f"
      using findFault_class(1)[OF Cons.prems(1), of E v] hit by simp
    show ?thesis
    proof (cases "?N = 1")
      case True
      then show ?thesis
        using b \<open>regex_match E v (keyValueRegex f)\<close>
        by (auto simp del: findFaultCalls.simps simp: findFaultCalls_Cons hits_simps nth_Cons
            split: nat.splits)
    next
      case False
      let ?f' = "f\<lparr>countRemaining := ?N - 1\<rparr>"
      have l': "map_of (faults ?s1) kc = Some (pre @ ?f' # post)"
        using findFault_class(2)[OF Cons.prems(1), of E v] hit False Cons.prems(2) by simp
      have c': "0 < countRemaining ?f'" using False Cons.prems(2) by simp
      have m': "\<forall>v\<in>set vs. regex_match E v (keyValueRegex ?f') \<longrightarrow>
           (\<forall>r\<in>set (map keyValueRegex pre). \<not> regex_match E v r)"
        using Cons.prems(3) by simp
      note ih = Cons.IH[OF l' c' m']
      have r: "\<forall>i<length (v # vs). regex_match E ((v # vs) ! i) (keyValueRegex f) \<and>
            hits E f (take i (v # vs)) < ?N \<longrightarrow>
            fst (findFaultCalls E kc (v # vs) s) ! i = behavior f"
      proof (intro allI impI)
        fix i assume i: "i < length (v # vs)"
          and h: "regex_match E ((v # vs) ! i) (keyValueRegex f) \<and> hits E f (take i (v # vs)) < ?N"
        show "fst (findFaultCalls E kc (v # vs) s) ! i = behavior f"
        proof (cases i)
          case 0
          then show ?thesis using b by (simp del: findFaultCalls.simps add: findFaultCalls_Cons)
        next
          case (Suc j)
          with i h True have "j < length vs" "regex_match E (vs ! j) (keyValueRegex ?f')"
            "hits E ?f' (take j vs) < countRemaining ?f'"
            by (auto simp: hits_simps)
          with ih have "fst (findFaultCalls E kc vs ?s1) ! j = behavior ?f'" by blast
          with Suc show ?thesis by (simp del: findFaultCalls.simps add: findFaultCalls_Cons)
        qed
      qed
      have e: "hits E f (v # vs) < ?N \<longrightarrow>
            (\<exists>pre' post'. map_of (faults (snd (findFaultCalls E kc (v # vs) s))) kc =
               Some (pre' @ f\<lparr>countRemaining := ?N - hits E f (v # vs)\<rparr> # post') \<and>
               set (map keyValueRegex pre') \<subseteq> set (map keyValueRegex pre))"
      proof
        assume "hits E f (v # vs) < ?N"
        with True have "hits E ?f' vs < countRemaining ?f'" by (auto simp: hits_simps)
        with ih obtain pre' post' where
          "map_of (faults (snd (findFaultCalls E kc vs ?s1))) kc =
             Some (pre' @ ?f'\<lparr>countRemaining := countRemaining ?f' - hits E ?f' vs\<rparr> # post')"
          "set (map keyValueRegex pre') \<subseteq> set (map keyValueRegex pre)"
          by blast
        with True show "\<exists>pre' post'. map_of (faults (snd (findFaultCalls E kc (v # vs) s))) kc =
               Some (pre' @ f\<lparr>countRemaining := ?N - hits E f (v # vs)\<rparr> # post') \<and>
               set (map keyValueRegex pre') \<subseteq> set (map keyValueRegex pre)"
          by (intro exI[of _ pre'] exI[of _ post']) (simp del: findFaultCalls.simps add: findFaultCalls_Cons hits_simps)
      qed
      from r e show ?thesis by blast
    qed
  next
    case False
    from findFault_frame[OF Cons.prems(1), of E v] False obtain pre1 post1 where
      l1: "map_of (faults ?s1) kc = Some (pre1 @ f # post1)"
      and sub: "set (map keyValueRegex pre1) \<subseteq> set (map keyValueRegex pre)"
      by blast
    have m1: "\<forall>v\<in>set vs. regex_match E v (keyValueRegex f) \<longrightarrow>
           (\<forall>r\<in>set (map keyValueRegex pre1). \<not> regex_match E v r)"
      using Cons.prems(3) sub by auto
    note ih = Cons.IH[OF l1 Cons.prems(2) m1]
    have r: "\<forall>i<length (v # vs). regex_match E ((v # vs) ! i) (keyValueRegex f) \<and>
            hits E f (take i (v # vs)) < ?N \<longrightarrow>
            fst (findFaultCalls E kc (v # vs) s) ! i = behavior f"
    proof (intro allI impI)
      fix i assume i: "i < length (v # vs)"
        and h: "regex_match E ((v # vs) ! i) (keyValueRegex f) \<and> hits E f (take i (v # vs)) < ?N"
      show "fst (findFaultCalls E kc (v # vs) s) ! i = behavior f"
      proof (cases i)
        case 0
        with h False show ?thesis by simp
      next
        case (Suc j)
        with i h False have "j < length vs" "regex_match E (vs ! j) (keyValueRegex f)"
          "hits E f (take j vs) < ?N"
          by (auto simp: hits_simps)
        with ih have "fst (findFaultCalls E kc vs ?s1) ! j = behavior f" by blast
        with Suc show ?thesis by (simp del: findFaultCalls.simps add: findFaultCalls_Cons)
      qed
    qed
    have e: "hits E f (v # vs) < ?N \<longrightarrow>
            (\<exists>pre' post'. map_of (faults (snd (findFaultCalls E kc (v # vs) s))) kc =
               Some (pre' @ f\<lparr>countRemaining := ?N - hits E f (v # vs)\<rparr> # post') \<and>
               set (map keyValueRegex pre') \<subseteq> set (map keyValueRegex pre))"
    proof
      assume "hits E f (v # vs) < ?N"
      with False have "hits E f vs < ?N" by (simp add: hits_simps)
      with ih obtain pre' post' where
        "map_of (faults (snd (findFaultCalls E kc vs ?s1))) kc =
           Some (pre' @ f\<lparr>countRemaining := ?N - hits E f vs\<rparr> # post')"
        "set (map keyValueRegex pre') \<subseteq> set (map keyValueRegex pre1)"
        by blast
      with False sub show "\<exists>pre' post'. map_of (faults (snd (findFaultCalls E kc (v # vs) s))) kc =
               Some (pre' @ f\<lparr>countRemaining := ?N - hits E f (v # vs)\<rparr> # post') \<and>
               set (map keyValueRegex pre') \<subseteq> set (map keyValueRegex pre)"
        by (intro exI[of _ pre'] exI[of _ post']) (auto simp del: findFaultCalls.simps simp: findFaultCalls_Cons hits_simps)
    qed
    from r e show ?thesis by blast
  qed
qed

lemma scenario_A:
  assumes "regex_compiles E ''^/foo$''" and "regex_match E ''/foo'' ''^/foo$''"
  shows "fst (checkImpl E ''open'' ''/foo'' (snd (injectError E ''open'' ''^/foo$'' e 1 (FaultInjector True)))) = Throws e"
    and "fst (checkImpl E ''open'' ''/foo''
               (snd (checkImpl E ''open'' ''/foo'' (snd (injectError E ''open'' ''^/foo$'' e 1 (FaultInjector True))))))
          = Returns ()"
  using assms
  by (simp_all add: checkImpl_def checkTryImpl_def checkAsyncImpl_def findFault_def injectError_def
      injectFault_def FaultInjector_def Fault_def)

lemma findFault_result:
  "fst (findFault E keyClass kv s) =
     (case map_of (faults s) keyClass of
        None \<Rightarrow> Unit
      | Some faultVector \<Rightarrow>
          (case find (\<lambda>f. regex_match E kv (keyValueRegex f)) faultVector of
             None \<Rightarrow> Unit
           | Some f \<Rightarrow> behavior f))"
proof (cases "map_of (faults s) keyClass")
  case None
  then show ?thesis by (simp add: findFault_def)
next
  case (Some fv)
  have "map_option fst (scanFaults E kv fv) =
        map_option behavior (find (\<lambda>f. regex_match E kv (keyValueRegex f)) fv)"
    by (rule scanFaults_find)
  then show ?thesis
    using Some by (auto simp: findFault_def split: option.splits)
qed

lemma findFault_first_match:
  assumes "map_of (faults s) keyClass = Some (pre @ f # post)"
    and "\<forall>g\<in>set pre. \<not> regex_match E kv (keyValueRegex g)"
    and "regex_match E kv (keyValueRegex f)"
  shows "fst (findFault E keyClass kv s) = behavior f"
  using findFault_class(1)[OF assms(1), of E kv] scanFaults_hit[OF assms(2) assms(3), of post]
  by simp

lemma findFault_hit_state:
  assumes "map_of (faults s) keyClass = Some (pre @ f # post)"
    and "\<forall>g\<in>set pre. \<not> regex_match E kv (keyValueRegex g)"
    and "regex_match E kv (keyValueRegex f)"
  shows "snd (findFault E keyClass kv s) =
     s\<lparr>faults := AList.update keyClass
          (pre @ (if countRemaining f = 0 then [f]
                  else if countRemaining f = 1 then []
                  else [f\<lparr>countRemaining := countRemaining f - 1\<rparr>]) @ post) (faults s)\<rparr>"
  using assms(1) scanFaults_hit[OF assms(2) assms(3), of post]
  by (simp add: findFault_def)

lemma injectFault_appends:
  assumes "enabled s" and "regex_compiles E regex"
  shows "injectFault E keyClass regex b count s =
     (Inr (), s\<lparr>faults := AList.update keyClass
        ((case map_of (faults s) keyClass of None \<Rightarrow> [] | Some v \<Rightarrow> v) @ [Fault regex b count])
        (faults s)\<rparr>)"
  using assms by (simp add: injectFault_def)

lemma registration_order:
  assumes "enabled s" and "regex_compiles E r1" and "regex_compiles E r2"
    and "regex_match E kv r1"
    and "\<forall>g\<in>set (case map_of (faults s) keyClass of None \<Rightarrow> [] | Some v \<Rightarrow> v).
           \<not> regex_match E kv (keyValueRegex g)"
  shows "fst (findFault E keyClass kv
            (snd (injectFault E keyClass r2 b2 n2 (snd (injectFault E keyClass r1 b1 n1 s))))) = b1"
proof -
  let ?old = "case map_of (faults s) keyClass of None \<Rightarrow> [] | Some v \<Rightarrow> v"
  let ?s1 = "snd (injectFault E keyClass r1 b1 n1 s)"
  let ?s2 = "snd (injectFault E keyClass r2 b2 n2 ?s1)"
  have s1: "map_of (faults ?s1) keyClass = Some (?old @ [Fault r1 b1 n1])" and e1: "enabled ?s1"
    using assms(1,2) by (simp_all add: injectFault_appends update_conv')
  have "map_of (faults ?s2) keyClass = Some (?old @ Fault r1 b1 n1 # [Fault r2 b2 n2])"
    using s1 e1 assms(3) by (simp add: injectFault_appends update_conv')
  from findFault_first_match[OF this, of E kv] assms(4,5) show ?thesis
    by (simp add: Fault_def)
qed

subsection \<open>removeFault\<close>

lemma eraseFirst_None: "eraseFirst regex fv = None \<longleftrightarrow> (\<forall>g\<in>set fv. keyValueRegex g \<noteq> regex)"
  by (induction fv) (auto split: option.splits)

lemma eraseFirst_Some:
  "\<forall>g\<in>set pre. keyValueRegex g \<noteq> regex \<Longrightarrow> keyValueRegex f = regex \<Longrightarrow>
   eraseFirst regex (pre @ f # post) = Some (pre @ post)"
  by (induction pre) auto

lemma removeFault_removes:
  assumes "map_of (faults s) keyClass = Some (pre @ f # post)"
    and "keyValueRegex f = regex" and "\<forall>g\<in>set pre. keyValueRegex g \<noteq> regex"
  shows "removeFault keyClass regex s =
     (True, s\<lparr>faults := (if pre @ post = [] then AList.delete keyClass (faults s)
                         else AList.update keyClass (pre @ post) (faults s))\<rparr>)"
  using assms(1) eraseFirst_Some[OF assms(3) assms(2), of post]
  by (simp add: removeFault_def)

lemma removeFault_not_found:
  assumes "map_of (faults s) keyClass = None \<or>
           (\<exists>fv. map_of (faults s) keyClass = Some fv \<and> (\<forall>g\<in>set fv. keyValueRegex g \<noteq> regex))"
  shows "removeFault keyClass regex s = (False, s)"
  using assms by (auto simp: removeFault_def eraseFirst_None[symmetric])

subsection \<open>The checks\<close>

lemma checkAsyncImpl_cases:
  "fst (findFault E keyClass kv s) = Unit \<Longrightarrow>
     checkAsyncImpl E keyClass kv s = (Returns (Immediate Value), snd (findFault E keyClass kv s))"
  "fst (findFault E keyClass kv s) = Error cause \<Longrightarrow>
     checkAsyncImpl E keyClass kv s = (Returns (Immediate (Exception cause)), snd (findFault E keyClass kv s))"
  "fst (findFault E keyClass kv s) = Block \<Longrightarrow>
     checkAsyncImpl E keyClass kv s =
       (Returns (Deferred (PromiseFuture (length (promises (snd (findFault E keyClass kv s)))))),
        snd (addBlockedFault keyClass kv (snd (findFault E keyClass kv s))))"
  "fst (findFault E keyClass kv s) = Delay d err \<Longrightarrow>
     checkAsyncImpl E keyClass kv s = (Returns (Deferred (SleepFuture d err)), snd (findFault E keyClass kv s))"
  "fst (findFault E keyClass kv s) = Kill \<Longrightarrow>
     checkAsyncImpl E keyClass kv s = (Aborts, snd (findFault E keyClass kv s))"
  by (auto simp: checkAsyncImpl_def addBlockedFault_def Let_def split: prod.splits)

lemma findFault_frame_fields:
  "enabled (snd (findFault E keyClass kv s)) = enabled s"
  "blockedChecks (snd (findFault E keyClass kv s)) = blockedChecks s"
  "promises (snd (findFault E keyClass kv s)) = promises s"
  by (auto simp: findFault_def split: option.splits)

lemma findFault_no_match:
  assumes "map_of (faults s) keyClass = None \<or>
     (\<exists>fv. map_of (faults s) keyClass = Some fv \<and> (\<forall>g\<in>set fv. \<not> regex_match E kv (keyValueRegex g)))"
  shows "findFault E keyClass kv s = (Unit, s)"
  using assms by (auto simp: findFault_def scanFaults_no_match)

lemma addBlockedFault_fields:
  "fst (addBlockedFault keyClass kv s) = length (promises s)"
  "promises (snd (addBlockedFault keyClass kv s)) = promises s @ [Unfulfilled]"
  "map_of (blockedChecks (snd (addBlockedFault keyClass kv s))) keyClass =
     Some ((case map_of (blockedChecks s) keyClass of None \<Rightarrow> [] | Some v \<Rightarrow> v) @
           [\<lparr>keyValue = kv, promise = length (promises s)\<rparr>])"
  "k \<noteq> keyClass \<Longrightarrow>
     map_of (blockedChecks (snd (addBlockedFault keyClass kv s))) k = map_of (blockedChecks s) k"
  "faults (snd (addBlockedFault keyClass kv s)) = faults s"
  "enabled (snd (addBlockedFault keyClass kv s)) = enabled s"
  by (simp_all add: addBlockedFault_def Let_def update_conv')

subsection \<open>The enable flag\<close>

lemma injectFault_disabled_iff:
  "(fst (injectFault E keyClass regex b count s) = Inl disabled_error \<and>
    snd (injectFault E keyClass regex b count s) = s) \<longleftrightarrow> \<not> enabled s"
  by (auto simp: injectFault_def Let_def disabled_error_def)

lemma injectFault_enabled: "enabled (snd (injectFault E keyClass regex b count s)) = enabled s"
  by (simp add: injectFault_def Let_def)

lemma findFault_flag:
  "findFault E keyClass kv (s\<lparr>enabled := flag\<rparr>) =
     (fst (findFault E keyClass kv s), (snd (findFault E keyClass kv s))\<lparr>enabled := flag\<rparr>)"
  by (simp add: findFault_def split: option.splits)

lemma addBlockedFault_flag:
  "addBlockedFault keyClass kv (s\<lparr>enabled := flag\<rparr>) =
     (fst (addBlockedFault keyClass kv s), (snd (addBlockedFault keyClass kv s))\<lparr>enabled := flag\<rparr>)"
  by (simp add: addBlockedFault_def Let_def)

lemma checkAsyncImpl_flag:
  "checkAsyncImpl E keyClass kv (s\<lparr>enabled := flag\<rparr>) =
     (fst (checkAsyncImpl E keyClass kv s), (snd (checkAsyncImpl E keyClass kv s))\<lparr>enabled := flag\<rparr>)"
  by (simp add: checkAsyncImpl_def findFault_flag addBlockedFault_flag
      split: prod.splits faultBehavior.splits)

lemma checkTryImpl_flag:
  "checkTryImpl E keyClass kv (s\<lparr>enabled := flag\<rparr>) =
     (fst (checkTryImpl E keyClass kv s), (snd (checkTryImpl E keyClass kv s))\<lparr>enabled := flag\<rparr>)"
  by (simp add: checkTryImpl_def checkAsyncImpl_flag split: prod.splits completion.splits)

lemma checkImpl_flag:
  "checkImpl E keyClass kv (s\<lparr>enabled := flag\<rparr>) =
     (fst (checkImpl E keyClass kv s), (snd (checkImpl E keyClass kv s))\<lparr>enabled := flag\<rparr>)"
  by (simp add: checkImpl_def checkTryImpl_flag split: prod.splits completion.splits tryUnit.splits)

lemma checkAsyncImpl_noop_hit:
  assumes "map_of (faults s) keyClass = Some (pre @ f # post)"
    and "behavior f = Unit"
    and "regex_match E kv (keyValueRegex f)"
    and "\<forall>g\<in>set pre. \<not> regex_match E kv (keyValueRegex g)"
  shows "checkAsyncImpl E keyClass kv s =
     (Returns (Immediate Value),
      s\<lparr>faults := AList.update keyClass
          (pre @ (if countRemaining f = 0 then [f]
                  else if countRemaining f = 1 then []
                  else [f\<lparr>countRemaining := countRemaining f - 1\<rparr>]) @ post) (faults s)\<rparr>)"
proof -
  have "fst (findFault E keyClass kv s) = Unit"
    using findFault_first_match[OF assms(1) assms(4) assms(3)] assms(2) by simp
  from checkAsyncImpl_cases(1)[OF this] findFault_hit_state[OF assms(1) assms(4) assms(3)]
  show ?thesis by simp
qed

subsection \<open>The loop of extractBlockedChecks\<close>

lemma extractLoop_spec:
  "writeIter \<le> readIter \<Longrightarrow>
   extractLoop m readIter writeIter blocked results = (w', blocked', results') \<Longrightarrow>
   w' = writeIter + length (filter (\<lambda>c. \<not> m (keyValue c)) (drop readIter blocked)) \<and>
   take w' blocked' = take writeIter blocked @ filter (\<lambda>c. \<not> m (keyValue c)) (drop readIter blocked) \<and>
   results' = results @ filter (\<lambda>c. m (keyValue c)) (drop readIter blocked)"
proof (induction m readIter writeIter blocked results rule: extractLoop.induct)
  case (1 m r w blocked results)
  show ?case
  proof (cases "r < length blocked")
    case False
    with "1.prems" show ?thesis by simp
  next
    case True
    note inrange = this
    have d: "drop r blocked = blocked ! r # drop (Suc r) blocked"
      using True by (simp add: Cons_nth_drop_Suc)
    show ?thesis
    proof (cases "m (keyValue (blocked ! r))")
      case True
      with inrange "1.prems" have
        "extractLoop m (r + 1) w blocked (results @ [blocked ! r]) = (w', blocked', results')"
        by (simp del: extractLoop.simps add: extractLoop.simps[of m r])
      from "1.IH"(1)[OF inrange True _ this] "1.prems"(1) d True show ?thesis by auto
    next
      case False
      define b where "b = (if r \<noteq> w then blocked[w := blocked ! r] else blocked)"
      from False inrange "1.prems" have
        e: "extractLoop m (r + 1) (w + 1) b results = (w', blocked', results')"
        unfolding b_def by (simp del: extractLoop.simps add: extractLoop.simps[of m r])
      have dr: "drop (r + 1) b = drop (Suc r) blocked"
        unfolding b_def using "1.prems"(1) by simp
      have tk: "take (w + 1) b = take w blocked @ [blocked ! r]"
        unfolding b_def using "1.prems"(1) inrange by (auto simp: take_Suc_conv_app_nth)
      have le: "w + 1 \<le> r + 1" using "1.prems"(1) by simp
      from "1.IH"(2)[OF inrange False le e[unfolded b_def]] have
        ih: "w' = w + 1 + length (filter (\<lambda>c. \<not> m (keyValue c)) (drop (r + 1) b))"
          "take w' blocked' = take (w + 1) b @ filter (\<lambda>c. \<not> m (keyValue c)) (drop (r + 1) b)"
          "results' = results @ filter (\<lambda>c. m (keyValue c)) (drop (r + 1) b)"
        unfolding b_def by blast+
      show ?thesis
        using ih[unfolded dr tk] d False by simp
    qed
  qed
qed

lemma extractLoop_partition:
  assumes "extractLoop m 0 0 blocked [] = (w', blocked', results')"
  shows "take w' blocked' = filter (\<lambda>c. \<not> m (keyValue c)) blocked"
    and "results' = filter (\<lambda>c. m (keyValue c)) blocked"
    and "w' = 0 \<longleftrightarrow> filter (\<lambda>c. \<not> m (keyValue c)) blocked = []"
  using extractLoop_spec[OF _ assms] by auto

lemma extractBlockedChecks_result:
  assumes "map_of (blockedChecks s) keyClass = Some blocked" and "regex_compiles E regex"
  shows "extractBlockedChecks E keyClass regex s =
     (Inr (filter (\<lambda>c. regex_match E (keyValue c) regex) blocked),
      s\<lparr>blockedChecks :=
          (if filter (\<lambda>c. \<not> regex_match E (keyValue c) regex) blocked = []
           then AList.delete keyClass (blockedChecks s)
           else AList.update keyClass (filter (\<lambda>c. \<not> regex_match E (keyValue c) regex) blocked)
                  (blockedChecks s))\<rparr>)"
proof -
  obtain w' blocked' results' where
    e: "extractLoop (\<lambda>v. regex_match E v regex) 0 0 blocked [] = (w', blocked', results')"
    by (cases "extractLoop (\<lambda>v. regex_match E v regex) 0 0 blocked []") auto
  note p = extractLoop_partition[OF e]
  show ?thesis
    using assms e p by (simp add: extractBlockedChecks_def del: extractLoop.simps)
qed

lemma extractBlockedChecks_no_class:
  "map_of (blockedChecks s) keyClass = None \<Longrightarrow> extractBlockedChecks E keyClass regex s = (Inr [], s)"
  by (simp add: extractBlockedChecks_def)

subsection \<open>Resolving promises\<close>

lemma length_setAll [simp]: "length (setAll t ms ps) = length ps"
  by (induction ms arbitrary: ps) auto

lemma setAll_other: "p \<notin> promise ` set ms \<Longrightarrow> setAll t ms ps ! p = ps ! p"
  by (induction ms arbitrary: ps) auto

lemma setAll_resolved:
  "c \<in> set ms \<Longrightarrow> promise c < length ps \<Longrightarrow> setAll t ms ps ! promise c = Fulfilled t"
proof (induction ms arbitrary: ps c)
  case Nil
  then show ?case by simp
next
  case (Cons m ms)
  show ?case
  proof (cases "c \<in> set ms")
    case True
    with Cons show ?thesis by simp
  next
    case False
    with Cons.prems have cm: "c = m" by simp
    show ?thesis
    proof (cases "promise c \<in> promise ` set ms")
      case True
      then obtain c' where "c' \<in> set ms" "promise c' = promise c" by auto
      with Cons.IH[of c' "ps[promise m := Fulfilled t]"] Cons.prems(2) show ?thesis by simp
    next
      case False
      with cm Cons.prems(2) show ?thesis by (simp add: setAll_other)
    qed
  qed
qed

lemma allBlocked_class:
  "map_of m keyClass = Some blocked \<Longrightarrow> set blocked \<subseteq> set (allBlocked m)"
  by (auto simp: allBlocked_def dest!: map_of_SomeD intro!: bexI[of _ "(keyClass, blocked)"])

lemma distinct_class:
  assumes "distinct (map promise (allBlocked m))" and "map_of m keyClass = Some blocked"
  shows "distinct (map promise blocked)"
proof -
  have "(keyClass, blocked) \<in> set m" using assms(2) by (rule map_of_SomeD)
  then have "map promise blocked \<in> set (map (map promise \<circ> snd) m)" by force
  moreover have "distinct (concat (map (map promise \<circ> snd) m))"
    using assms(1) by (simp add: allBlocked_def map_concat)
  ultimately show ?thesis by (auto simp: distinct_concat_iff)
qed

lemma blocked_ok_class:
  assumes "blocked_ok s" and "map_of (blockedChecks s) keyClass = Some blocked"
  shows "distinct (map promise blocked)"
    and "\<forall>c\<in>set blocked. promise c < length (promises s) \<and> promises s ! promise c = Unfulfilled"
proof -
  show "distinct (map promise blocked)"
    using assms distinct_class by (auto simp: blocked_ok_def)
  show "\<forall>c\<in>set blocked. promise c < length (promises s) \<and> promises s ! promise c = Unfulfilled"
    using assms allBlocked_class[OF assms(2)] by (auto simp: blocked_ok_def list_all_iff)
qed

lemma extractBlockedChecks_spec:
  assumes "map_of (blockedChecks s) keyClass = Some blocked" and "regex_compiles E regex"
  shows "extractBlockedChecks E keyClass regex s =
     (Inr (matchingChecks E regex blocked),
      s\<lparr>blockedChecks :=
          (if otherChecks E regex blocked = [] then AList.delete keyClass (blockedChecks s)
           else AList.update keyClass (otherChecks E regex blocked) (blockedChecks s))\<rparr>)"
  unfolding matchingChecks_def otherChecks_def using assms by (rule extractBlockedChecks_result)

lemma partition_promises:
  assumes "distinct (map promise blocked)" and "c \<in> set (otherChecks E regex blocked)"
  shows "promise c \<notin> promise ` set (matchingChecks E regex blocked)"
proof
  assume "promise c \<in> promise ` set (matchingChecks E regex blocked)"
  then obtain c' where c': "c' \<in> set blocked" "regex_match E (keyValue c') regex" "promise c' = promise c"
    by (auto simp: matchingChecks_def)
  from assms(2) have c: "c \<in> set blocked" "\<not> regex_match E (keyValue c) regex"
    by (auto simp: otherChecks_def)
  from assms(1) c(1) c'(1) c'(3) have "c' = c" by (auto simp: distinct_map dest: inj_onD)
  with c c' show False by simp
qed

lemma unblock_with:
  assumes "blocked_ok s" and "map_of (blockedChecks s) keyClass = Some blocked"
    and "regex_compiles E regex"
    and r: "r = (Inr (length (matchingChecks E regex blocked)),
       s\<lparr>blockedChecks :=
            (if otherChecks E regex blocked = [] then AList.delete keyClass (blockedChecks s)
             else AList.update keyClass (otherChecks E regex blocked) (blockedChecks s)),
          promises := setAll t (matchingChecks E regex blocked) (promises s)\<rparr>)"
  shows "fst r = Inr (length (matchingChecks E regex blocked))"
    and "map_of (blockedChecks (snd r)) keyClass =
           (if otherChecks E regex blocked = [] then None else Some (otherChecks E regex blocked))"
    and "\<forall>k. k \<noteq> keyClass \<longrightarrow> map_of (blockedChecks (snd r)) k = map_of (blockedChecks s) k"
    and "\<forall>c\<in>set (matchingChecks E regex blocked). promises (snd r) ! promise c = Fulfilled t"
    and "\<forall>c\<in>set (otherChecks E regex blocked). promises (snd r) ! promise c = Unfulfilled"
    and "\<forall>p. p \<notin> promise ` set (matchingChecks E regex blocked) \<longrightarrow>
           promises (snd r) ! p = promises s ! p"
    and "length (promises (snd r)) = length (promises s)"
    and "faults (snd r) = faults s" and "enabled (snd r) = enabled s"
proof -
  note ok = blocked_ok_class[OF assms(1,2)]
  show "fst r = Inr (length (matchingChecks E regex blocked))" unfolding r by simp
  show "map_of (blockedChecks (snd r)) keyClass =
           (if otherChecks E regex blocked = [] then None else Some (otherChecks E regex blocked))"
    unfolding r by (simp add: update_conv' delete_conv')
  show "\<forall>k. k \<noteq> keyClass \<longrightarrow> map_of (blockedChecks (snd r)) k = map_of (blockedChecks s) k"
    unfolding r by (simp add: update_conv' delete_conv')
  show "\<forall>c\<in>set (matchingChecks E regex blocked). promises (snd r) ! promise c = Fulfilled t"
    unfolding r using ok(2) by (auto simp: matchingChecks_def intro!: setAll_resolved)
  show other: "\<forall>p. p \<notin> promise ` set (matchingChecks E regex blocked) \<longrightarrow>
           promises (snd r) ! p = promises s ! p"
    unfolding r by (simp add: setAll_other)
  show "\<forall>c\<in>set (otherChecks E regex blocked). promises (snd r) ! promise c = Unfulfilled"
  proof
    fix c assume c: "c \<in> set (otherChecks E regex blocked)"
    then have "promise c \<notin> promise ` set (matchingChecks E regex blocked)"
      using ok(1) by (intro partition_promises)
    with other have "promises (snd r) ! promise c = promises s ! promise c" by blast
    moreover have "c \<in> set blocked" using c by (simp add: otherChecks_def)
    ultimately show "promises (snd r) ! promise c = Unfulfilled" using ok(2) by simp
  qed
  show "length (promises (snd r)) = length (promises s)" unfolding r by simp
  show "faults (snd r) = faults s" "enabled (snd r) = enabled s" unfolding r by simp_all
qed

lemma unblock_eq:
  assumes "map_of (blockedChecks s) keyClass = Some blocked" and "regex_compiles E regex"
  shows "unblock E keyClass regex s =
      (Inr (length (matchingChecks E regex blocked)),
       s\<lparr>blockedChecks :=
            (if otherChecks E regex blocked = [] then AList.delete keyClass (blockedChecks s)
             else AList.update keyClass (otherChecks E regex blocked) (blockedChecks s)),
          promises := setAll Value (matchingChecks E regex blocked) (promises s)\<rparr>)"
    and "unblockWithError E keyClass regex cause s =
      (Inr (length (matchingChecks E regex blocked)),
       s\<lparr>blockedChecks :=
            (if otherChecks E regex blocked = [] then AList.delete keyClass (blockedChecks s)
             else AList.update keyClass (otherChecks E regex blocked) (blockedChecks s)),
          promises := setAll (Exception cause) (matchingChecks E regex blocked) (promises s)\<rparr>)"
  by (simp_all add: unblock_def unblockWithError_def extractBlockedChecks_spec[OF assms])

lemma unblock_no_class:
  assumes "map_of (blockedChecks s) keyClass = None"
  shows "unblock E keyClass regex s = (Inr 0, s)"
    and "unblockWithError E keyClass regex cause s = (Inr 0, s)"
  using assms by (simp_all add: unblock_def unblockWithError_def extractBlockedChecks_no_class)

subsection \<open>unblockAllImpl and the destructor\<close>

lemma setAll_append: "setAll t (xs @ ys) ps = setAll t ys (setAll t xs ps)"
  by (induction xs arbitrary: ps) auto

lemma unblockLoop_eq:
  "unblockLoop error m n ps = (n + length (allBlocked m), setAll (resolution error) (allBlocked m) ps)"
  by (induction m arbitrary: n ps) (auto simp: allBlocked_def setAll_append resolution_def)

lemma unblockAllImpl_eq:
  "unblockAllImpl error s =
     (length (allBlocked (blockedChecks s)),
      s\<lparr>blockedChecks := [],
        promises := setAll (resolution error) (allBlocked (blockedChecks s)) (promises s)\<rparr>)"
  by (simp add: unblockAllImpl_def unblockLoop_eq)

lemma length_allBlocked: "length (allBlocked m) = sum_list (map (\<lambda>classEntry. length (snd classEntry)) m)"
  by (simp add: allBlocked_def length_concat comp_def)

lemma unblockAllImpl_spec:
  assumes "blocked_ok s"
  shows "blockedChecks (snd (unblockAllImpl error s)) = []"
    and "fst (unblockAllImpl error s) =
           sum_list (map (\<lambda>classEntry. length (snd classEntry)) (blockedChecks s))"
    and "\<forall>c\<in>set (allBlocked (blockedChecks s)).
           promises (snd (unblockAllImpl error s)) ! promise c = Fulfilled (resolution error)"
    and "\<forall>p. p \<notin> promise ` set (allBlocked (blockedChecks s)) \<longrightarrow>
           promises (snd (unblockAllImpl error s)) ! p = promises s ! p"
    and "length (promises (snd (unblockAllImpl error s))) = length (promises s)"
    and "faults (snd (unblockAllImpl error s)) = faults s"
    and "enabled (snd (unblockAllImpl error s)) = enabled s"
proof -
  show "blockedChecks (snd (unblockAllImpl error s)) = []" by (simp add: unblockAllImpl_eq)
  show "fst (unblockAllImpl error s) =
           sum_list (map (\<lambda>classEntry. length (snd classEntry)) (blockedChecks s))"
    by (simp add: unblockAllImpl_eq length_allBlocked)
  show "\<forall>c\<in>set (allBlocked (blockedChecks s)).
           promises (snd (unblockAllImpl error s)) ! promise c = Fulfilled (resolution error)"
    using assms by (auto simp: unblockAllImpl_eq blocked_ok_def list_all_iff intro!: setAll_resolved)
  show "\<forall>p. p \<notin> promise ` set (allBlocked (blockedChecks s)) \<longrightarrow>
           promises (snd (unblockAllImpl error s)) ! p = promises s ! p"
    by (simp add: unblockAllImpl_eq setAll_other)
  show "length (promises (snd (unblockAllImpl error s))) = length (promises s)"
    by (simp add: unblockAllImpl_eq)
  show "faults (snd (unblockAllImpl error s)) = faults s"
    "enabled (snd (unblockAllImpl error s)) = enabled s"
    by (simp_all add: unblockAllImpl_eq)
qed

lemma destructor_eq:
  "destructor s =
     (if 0 < length (allBlocked (blockedChecks s))
      then [WARN_destroyed_with_pending (length (allBlocked (blockedChecks s)))] else [],
      snd (unblockAllImpl (Some destroyed_error) s))"
  by (simp add: destructor_def unblockAllImpl_eq)

subsection \<open>The invariant of the blocked checks\<close>

lemma alist_split:
  assumes "map_of m k = Some v" and "distinct (map fst m)"
  shows "\<exists>m1 m2. m = m1 @ (k, v) # m2 \<and> k \<notin> fst ` set m1 \<and> k \<notin> fst ` set m2"
proof -
  have "(k, v) \<in> set m" using assms(1) by (rule map_of_SomeD)
  then obtain m1 m2 where m: "m = m1 @ (k, v) # m2" by (auto dest: split_list)
  with assms(2) have "k \<notin> fst ` set m1 \<and> k \<notin> fst ` set m2" by auto
  with m show ?thesis by blast
qed

lemma update_split:
  "k \<notin> fst ` set m1 \<Longrightarrow> AList.update k v' (m1 @ (k, v) # m2) = m1 @ (k, v') # m2"
  by (induction m1) auto

lemma delete_split:
  "k \<notin> fst ` set m1 \<Longrightarrow> k \<notin> fst ` set m2 \<Longrightarrow> AList.delete k (m1 @ (k, v) # m2) = m1 @ m2"
proof -
  assume "k \<notin> fst ` set m1" and "k \<notin> fst ` set m2"
  then have "AList.delete k m1 = m1" and "AList.delete k m2 = m2" by simp_all
  then show ?thesis by (simp add: AList.delete_eq)
qed

lemma update_absent: "map_of m k = None \<Longrightarrow> AList.update k v m = m @ [(k, v)]"
  by (induction m) (auto split: if_splits)

lemma blocked_ok_grow:
  assumes d: "distinct (map promise (pre @ post))"
    and r: "\<forall>c\<in>set (pre @ post). promise c < length ps \<and> ps ! promise c = Unfulfilled"
  shows "distinct (map promise (pre @ \<lparr>keyValue = kv, promise = length ps\<rparr> # post))"
    and "\<forall>c\<in>set (pre @ \<lparr>keyValue = kv, promise = length ps\<rparr> # post).
           promise c < length (ps @ [Unfulfilled]) \<and> (ps @ [Unfulfilled]) ! promise c = Unfulfilled"
proof -
  have fresh: "length ps \<notin> promise ` set (pre @ post)"
  proof
    assume "length ps \<in> promise ` set (pre @ post)"
    then obtain c where "c \<in> set (pre @ post)" "promise c = length ps" by force
    with r show False by force
  qed
  with d show "distinct (map promise (pre @ \<lparr>keyValue = kv, promise = length ps\<rparr> # post))"
    by auto
  show "\<forall>c\<in>set (pre @ \<lparr>keyValue = kv, promise = length ps\<rparr> # post).
           promise c < length (ps @ [Unfulfilled]) \<and> (ps @ [Unfulfilled]) ! promise c = Unfulfilled"
  proof
    fix c assume "c \<in> set (pre @ \<lparr>keyValue = kv, promise = length ps\<rparr> # post)"
    then consider "c \<in> set (pre @ post)" | "c = \<lparr>keyValue = kv, promise = length ps\<rparr>" by auto
    then show "promise c < length (ps @ [Unfulfilled]) \<and> (ps @ [Unfulfilled]) ! promise c = Unfulfilled"
    proof cases
      case 1
      with r have "promise c < length ps" "ps ! promise c = Unfulfilled" by auto
      then show ?thesis by (simp add: nth_append)
    next
      case 2
      then show ?thesis by simp
    qed
  qed
qed

lemma blocked_ok_addBlockedFault:
  assumes "blocked_ok s"
  shows "blocked_ok (snd (addBlockedFault keyClass kv s))"
proof -
  have d: "distinct (map promise (allBlocked (blockedChecks s)))"
    and r: "\<forall>c\<in>set (allBlocked (blockedChecks s)).
              promise c < length (promises s) \<and> promises s ! promise c = Unfulfilled"
    and keys: "distinct (map fst (blockedChecks s))"
    using assms by (simp_all add: blocked_ok_def list_all_iff)
  let ?c = "\<lparr>keyValue = kv, promise = length (promises s)\<rparr>"
  have "\<exists>pre post. allBlocked (blockedChecks s) = pre @ post \<and>
          allBlocked (blockedChecks (snd (addBlockedFault keyClass kv s))) = pre @ ?c # post \<and>
          distinct (map fst (blockedChecks (snd (addBlockedFault keyClass kv s))))"
  proof (cases "map_of (blockedChecks s) keyClass")
    case None
    then have k: "keyClass \<notin> fst ` set (blockedChecks s)" by (simp add: map_of_eq_None_iff)
    have u: "blockedChecks (snd (addBlockedFault keyClass kv s)) = blockedChecks s @ [(keyClass, [?c])]"
      using None by (simp add: addBlockedFault_def Let_def update_absent)
    show ?thesis
      unfolding u using k keys
      by (intro exI[of _ "allBlocked (blockedChecks s)"] exI[of _ "[]"]) (simp add: allBlocked_def)
  next
    case (Some old)
    from alist_split[OF Some keys] obtain m1 m2 where
      m: "blockedChecks s = m1 @ (keyClass, old) # m2" and k: "keyClass \<notin> fst ` set m1"
      by auto
    have u: "blockedChecks (snd (addBlockedFault keyClass kv s)) = m1 @ (keyClass, old @ [?c]) # m2"
      using Some k by (simp add: addBlockedFault_def Let_def m update_split)
    show ?thesis
      unfolding u using keys
      by (intro exI[of _ "allBlocked m1 @ old"] exI[of _ "allBlocked m2"]) (simp add: m allBlocked_def)
  qed
  then obtain pre post where a: "allBlocked (blockedChecks s) = pre @ post"
    and a': "allBlocked (blockedChecks (snd (addBlockedFault keyClass kv s))) = pre @ ?c # post"
    and keys': "distinct (map fst (blockedChecks (snd (addBlockedFault keyClass kv s))))"
    by blast
  from blocked_ok_grow[OF d[unfolded a] r[unfolded a], of kv] keys' show ?thesis
    unfolding blocked_ok_def a' addBlockedFault_fields(2) by (simp add: list_all_iff)
qed

lemma blocked_ok_extract:
  assumes ok: "blocked_ok s" and cl: "map_of (blockedChecks s) keyClass = Some blocked"
  shows "blocked_ok
     (s\<lparr>blockedChecks :=
          (if otherChecks E regex blocked = [] then AList.delete keyClass (blockedChecks s)
           else AList.update keyClass (otherChecks E regex blocked) (blockedChecks s)),
        promises := setAll t (matchingChecks E regex blocked) (promises s)\<rparr>)"
proof -
  from alist_split[OF cl] ok obtain m1 m2 where
    m: "blockedChecks s = m1 @ (keyClass, blocked) # m2" and k: "keyClass \<notin> fst ` set m1"
      "keyClass \<notin> fst ` set m2"
    by (auto simp: blocked_ok_def)
  let ?m' = "if otherChecks E regex blocked = [] then AList.delete keyClass (blockedChecks s)
           else AList.update keyClass (otherChecks E regex blocked) (blockedChecks s)"
  have keys: "distinct (map fst ?m')"
    using ok by (simp add: blocked_ok_def distinct_delete distinct_update)
  have ab: "allBlocked (blockedChecks s) = allBlocked m1 @ blocked @ allBlocked m2"
    by (simp add: m allBlocked_def)
  have ab': "allBlocked ?m' = allBlocked m1 @ otherChecks E regex blocked @ allBlocked m2"
    using k by (simp add: m update_split delete_split allBlocked_def)
  have d: "distinct (map promise (allBlocked (blockedChecks s)))"
    and r: "\<forall>c\<in>set (allBlocked (blockedChecks s)).
              promise c < length (promises s) \<and> promises s ! promise c = Unfulfilled"
    using ok by (simp_all add: blocked_ok_def list_all_iff)
  have d': "distinct (map promise (allBlocked ?m'))"
    using d unfolding ab ab' by (auto simp: otherChecks_def distinct_map_filter)
  have "\<forall>c\<in>set (allBlocked ?m').
          promise c < length (promises s) \<and>
          setAll t (matchingChecks E regex blocked) (promises s) ! promise c = Unfulfilled"
  proof
    fix c assume c: "c \<in> set (allBlocked ?m')"
    then have c0: "c \<in> set (allBlocked (blockedChecks s))"
      unfolding ab ab' by (auto simp: otherChecks_def)
    have "promise c \<notin> promise ` set (matchingChecks E regex blocked)"
    proof
      assume "promise c \<in> promise ` set (matchingChecks E regex blocked)"
      then obtain c' where c': "c' \<in> set blocked" "regex_match E (keyValue c') regex"
        "promise c' = promise c"
        by (auto simp: matchingChecks_def)
      then have "c' \<in> set (allBlocked (blockedChecks s))" unfolding ab by simp
      with d c0 c'(3) have "c' = c" by (auto simp: distinct_map dest: inj_onD)
      with c c' d show False
        unfolding ab ab' by (auto simp: otherChecks_def)
    qed
    then have "setAll t (matchingChecks E regex blocked) (promises s) ! promise c = promises s ! promise c"
      by (rule setAll_other)
    with r c0 show "promise c < length (promises s) \<and>
          setAll t (matchingChecks E regex blocked) (promises s) ! promise c = Unfulfilled"
      by simp
  qed
  with keys d' show ?thesis by (simp add: blocked_ok_def list_all_iff)
qed

lemma blocked_ok_unblock:
  assumes "blocked_ok s"
  shows "blocked_ok (snd (unblock E keyClass regex s))"
    and "blocked_ok (snd (unblockWithError E keyClass regex cause s))"
proof -
  have "blocked_ok (snd (unblock E keyClass regex s)) \<and>
        blocked_ok (snd (unblockWithError E keyClass regex cause s))"
  proof (cases "map_of (blockedChecks s) keyClass")
    case None
    with assms show ?thesis by (simp add: unblock_no_class)
  next
    case (Some blocked)
    show ?thesis
    proof (cases "regex_compiles E regex")
      case True
      from blocked_ok_extract[OF assms Some] show ?thesis
        by (simp add: unblock_eq[OF Some True])
    next
      case False
      with Some assms show ?thesis
        by (simp add: unblock_def unblockWithError_def extractBlockedChecks_def)
    qed
  qed
  then show "blocked_ok (snd (unblock E keyClass regex s))"
    and "blocked_ok (snd (unblockWithError E keyClass regex cause s))" by simp_all
qed

lemma blocked_ok_faults: "blocked_ok (s\<lparr>faults := fs\<rparr>) = blocked_ok s"
  by (simp add: blocked_ok_def)

lemma blocked_ok_findFault: "blocked_ok s \<Longrightarrow> blocked_ok (snd (findFault E keyClass kv s))"
  by (simp add: blocked_ok_def findFault_frame_fields)

lemma blocked_ok_checkAsyncImpl:
  assumes "blocked_ok s"
  shows "blocked_ok (snd (checkAsyncImpl E keyClass kv s))"
proof -
  have f: "blocked_ok (snd (findFault E keyClass kv s))" using assms by (rule blocked_ok_findFault)
  show ?thesis
    using f blocked_ok_addBlockedFault[OF f, of keyClass kv]
    by (cases "fst (findFault E keyClass kv s)") (simp_all add: checkAsyncImpl_cases)
qed

lemma blocked_ok_injectFault: "blocked_ok s \<Longrightarrow> blocked_ok (snd (injectFault E keyClass regex b count s))"
  by (simp add: injectFault_def Let_def blocked_ok_faults)

lemma blocked_ok_removeFault: "blocked_ok s \<Longrightarrow> blocked_ok (snd (removeFault keyClass regex s))"
  by (simp add: removeFault_def blocked_ok_faults split: option.splits)

lemma blocked_ok_unblockAllImpl: "blocked_ok (snd (unblockAllImpl error s))"
  by (simp add: unblockAllImpl_eq blocked_ok_def allBlocked_def)

lemma reachable_blocked_ok: "reachable E s \<Longrightarrow> blocked_ok s"
proof (induction rule: reachable.induct)
  case (constructed flag)
  show ?case by (simp add: FaultInjector_def blocked_ok_def allBlocked_def)
qed (simp_all add: blocked_ok_injectFault blocked_ok_removeFault blocked_ok_checkAsyncImpl
    blocked_ok_findFault blocked_ok_addBlockedFault blocked_ok_unblock blocked_ok_unblockAllImpl)

subsection \<open>Empty class entries\<close>

lemma nonempty_update:
  "list_all (\<lambda>classEntry. snd classEntry \<noteq> []) m \<Longrightarrow> v \<noteq> [] \<Longrightarrow>
   list_all (\<lambda>classEntry. snd classEntry \<noteq> []) (AList.update k v m)"
  by (induction m) auto

lemma nonempty_delete:
  "list_all (\<lambda>classEntry. snd classEntry \<noteq> []) m \<Longrightarrow>
   list_all (\<lambda>classEntry. snd classEntry \<noteq> []) (AList.delete k m)"
  by (induction m) auto

lemma no_empty_class_removeFault:
  "no_empty_class s \<Longrightarrow> no_empty_class (snd (removeFault keyClass regex s))"
  by (auto simp: no_empty_class_def removeFault_def nonempty_update nonempty_delete
      split: option.splits)

lemma no_empty_class_injectFault:
  "no_empty_class s \<Longrightarrow> fst (injectFault E keyClass regex b count s) = Inr () \<Longrightarrow>
   no_empty_class (snd (injectFault E keyClass regex b count s))"
  by (auto simp: no_empty_class_def injectFault_def Let_def nonempty_update split: if_splits)

lemma no_empty_class_addBlockedFault:
  "no_empty_class s \<Longrightarrow> no_empty_class (snd (addBlockedFault keyClass kv s))"
  by (auto simp: no_empty_class_def addBlockedFault_def Let_def nonempty_update)

lemma no_empty_class_unblock:
  assumes "no_empty_class s"
  shows "no_empty_class (snd (unblock E keyClass regex s))"
    and "no_empty_class (snd (unblockWithError E keyClass regex cause s))"
proof -
  have "no_empty_class (snd (unblock E keyClass regex s)) \<and>
        no_empty_class (snd (unblockWithError E keyClass regex cause s))"
  proof (cases "map_of (blockedChecks s) keyClass")
    case None
    with assms show ?thesis by (simp add: unblock_no_class)
  next
    case (Some blocked)
    show ?thesis
    proof (cases "regex_compiles E regex")
      case True
      with assms show ?thesis
        by (auto simp: unblock_eq[OF Some True] no_empty_class_def nonempty_update nonempty_delete)
    next
      case False
      with Some assms show ?thesis
        by (simp add: unblock_def unblockWithError_def extractBlockedChecks_def)
    qed
  qed
  then show "no_empty_class (snd (unblock E keyClass regex s))"
    and "no_empty_class (snd (unblockWithError E keyClass regex cause s))" by simp_all
qed

lemma no_empty_class_unblockAllImpl:
  "no_empty_class s \<Longrightarrow> no_empty_class (snd (unblockAllImpl error s))"
  by (simp add: no_empty_class_def unblockAllImpl_eq)

section \<open>The claims\<close>

text \<open>
  C1, amended. A fault \<open>f\<close> with count \<open>N > 0\<close> stands in the fault list of a class, behind
  the faults \<open>pre\<close> that were registered before it.

  In any sequence of \<open>findFault\<close> calls for the class in which every value that matches
  the pattern of \<open>f\<close> matches the pattern of no fault of \<open>pre\<close>, each of the first \<open>N\<close>
  calls whose value matches the pattern of \<open>f\<close> returns the behavior of \<open>f\<close>, and as long
  as fewer than \<open>N\<close> such calls were made \<open>f\<close> is in the list with its counter lowered
  by their number. When the calls all match, the list after \<open>i \<le> N\<close> calls is the old one
  with the counter of \<open>f\<close> at \<open>N - i\<close>, and without \<open>f\<close> when \<open>i = N\<close>: the call that
  brings the counter to zero erases the fault, the other faults stay as they are.
  A call whose value does not match the pattern of \<open>f\<close>, or matches the pattern of a fault
  of \<open>pre\<close>, leaves \<open>f\<close> and its counter in the list.

  A fault \<open>u\<close> with count \<open>0\<close> returns its behavior on every call whose value matches its
  pattern and the pattern of no earlier fault, and the state does not change; no call of
  \<open>findFault\<close> removes it.

  After \<open>injectError\<close> of an error with count \<open>1\<close> for class \<open>open\<close> and pattern
  \<open>^/foo$\<close> into a new enabled injector, the first \<open>check\<close> of \<open>/foo\<close> throws that error
  and the second one returns.
\<close>

theorem bounded_fault_fires_count_times:
  "(map_of (faults s) kc = Some (pre @ f # post) \<and> 0 < countRemaining f \<and>
      (\<forall>v\<in>set ws. regex_match E v (keyValueRegex f) \<longrightarrow>
                   (\<forall>g\<in>set pre. \<not> regex_match E v (keyValueRegex g)))
    \<longrightarrow> (\<forall>i<length ws. regex_match E (ws ! i) (keyValueRegex f) \<and>
                        hits E f (take i ws) < countRemaining f \<longrightarrow>
                        fst (findFaultCalls E kc ws s) ! i = behavior f) \<and>
        (hits E f ws < countRemaining f \<longrightarrow>
           (\<exists>pre' post'. map_of (faults (snd (findFaultCalls E kc ws s))) kc =
              Some (pre' @ f\<lparr>countRemaining := countRemaining f - hits E f ws\<rparr> # post') \<and>
              set (map keyValueRegex pre') \<subseteq> set (map keyValueRegex pre))))
   \<and> (map_of (faults s) kc = Some (pre @ f # post) \<and> 0 < countRemaining f \<and>
      length vs \<le> countRemaining f \<and>
      (\<forall>v\<in>set vs. regex_match E v (keyValueRegex f) \<and>
                   (\<forall>g\<in>set pre. \<not> regex_match E v (keyValueRegex g)))
    \<longrightarrow> fst (findFaultCalls E kc vs s) = replicate (length vs) (behavior f) \<and>
        map_of (faults (snd (findFaultCalls E kc vs s))) kc =
          Some (pre @ (if length vs < countRemaining f
                       then [f\<lparr>countRemaining := countRemaining f - length vs\<rparr>] else []) @ post))
   \<and> (map_of (faults s) kc = Some (pre @ f # post) \<and>
      (\<not> regex_match E kv (keyValueRegex f) \<or> (\<exists>g\<in>set pre. regex_match E kv (keyValueRegex g)))
    \<longrightarrow> (\<exists>pre' post'. map_of (faults (snd (findFault E kc kv s))) kc = Some (pre' @ f # post') \<and>
           set (map keyValueRegex pre') \<subseteq> set (map keyValueRegex pre)))
   \<and> (map_of (faults s) kc = Some (upre @ u # upost) \<and> countRemaining u = 0 \<and>
      (\<forall>v\<in>set uvs. regex_match E v (keyValueRegex u) \<and>
                    (\<forall>g\<in>set upre. \<not> regex_match E v (keyValueRegex g)))
    \<longrightarrow> findFaultCalls E kc uvs s = (replicate (length uvs) (behavior u), s))
   \<and> (map_of (faults s) kc = Some (upre @ u # upost) \<and> countRemaining u = 0
    \<longrightarrow> (\<exists>fv'. map_of (faults (snd (findFault E kc kv s))) kc = Some fv' \<and> u \<in> set fv'))
   \<and> (regex_compiles E ''^/foo$'' \<and> regex_match E ''/foo'' ''^/foo$''
    \<longrightarrow> fst (checkImpl E ''open'' ''/foo''
              (snd (injectError E ''open'' ''^/foo$'' e 1 (FaultInjector True)))) = Throws e \<and>
        fst (checkImpl E ''open'' ''/foo''
              (snd (checkImpl E ''open'' ''/foo''
                (snd (injectError E ''open'' ''^/foo$'' e 1 (FaultInjector True)))))) = Returns ())"
proof (intro conjI impI)
  assume "map_of (faults s) kc = Some (pre @ f # post) \<and> 0 < countRemaining f \<and>
      (\<forall>v\<in>set ws. regex_match E v (keyValueRegex f) \<longrightarrow>
                   (\<forall>g\<in>set pre. \<not> regex_match E v (keyValueRegex g)))"
  then have "(\<forall>i<length ws. regex_match E (ws ! i) (keyValueRegex f) \<and>
                        hits E f (take i ws) < countRemaining f \<longrightarrow>
                        fst (findFaultCalls E kc ws s) ! i = behavior f) \<and>
        (hits E f ws < countRemaining f \<longrightarrow>
           (\<exists>pre' post'. map_of (faults (snd (findFaultCalls E kc ws s))) kc =
              Some (pre' @ f\<lparr>countRemaining := countRemaining f - hits E f ws\<rparr> # post') \<and>
              set (map keyValueRegex pre') \<subseteq> set (map keyValueRegex pre)))"
    by (intro findFaultCalls_interleaved) auto
  then show "\<forall>i<length ws. regex_match E (ws ! i) (keyValueRegex f) \<and>
                        hits E f (take i ws) < countRemaining f \<longrightarrow>
                        fst (findFaultCalls E kc ws s) ! i = behavior f"
    and "hits E f ws < countRemaining f \<Longrightarrow>
           \<exists>pre' post'. map_of (faults (snd (findFaultCalls E kc ws s))) kc =
              Some (pre' @ f\<lparr>countRemaining := countRemaining f - hits E f ws\<rparr> # post') \<and>
              set (map keyValueRegex pre') \<subseteq> set (map keyValueRegex pre)"
    by blast+
next
  assume "map_of (faults s) kc = Some (pre @ f # post) \<and> 0 < countRemaining f \<and>
      length vs \<le> countRemaining f \<and>
      (\<forall>v\<in>set vs. regex_match E v (keyValueRegex f) \<and>
                   (\<forall>g\<in>set pre. \<not> regex_match E v (keyValueRegex g)))"
  then have "fst (findFaultCalls E kc vs s) = replicate (length vs) (behavior f) \<and>
        map_of (faults (snd (findFaultCalls E kc vs s))) kc =
          Some (pre @ (if length vs < countRemaining f
                       then [f\<lparr>countRemaining := countRemaining f - length vs\<rparr>] else []) @ post)"
    by (intro findFaultCalls_bounded) auto
  then show "fst (findFaultCalls E kc vs s) = replicate (length vs) (behavior f)"
    and "map_of (faults (snd (findFaultCalls E kc vs s))) kc =
          Some (pre @ (if length vs < countRemaining f
                       then [f\<lparr>countRemaining := countRemaining f - length vs\<rparr>] else []) @ post)"
    by simp_all
next
  assume "map_of (faults s) kc = Some (pre @ f # post) \<and>
      (\<not> regex_match E kv (keyValueRegex f) \<or> (\<exists>g\<in>set pre. regex_match E kv (keyValueRegex g)))"
  then show "\<exists>pre' post'. map_of (faults (snd (findFault E kc kv s))) kc = Some (pre' @ f # post') \<and>
           set (map keyValueRegex pre') \<subseteq> set (map keyValueRegex pre)"
    by (intro findFault_frame) auto
next
  assume "map_of (faults s) kc = Some (upre @ u # upost) \<and> countRemaining u = 0 \<and>
      (\<forall>v\<in>set uvs. regex_match E v (keyValueRegex u) \<and>
                    (\<forall>g\<in>set upre. \<not> regex_match E v (keyValueRegex g)))"
  then show "findFaultCalls E kc uvs s = (replicate (length uvs) (behavior u), s)"
    by (intro findFaultCalls_unbounded[where pre = upre and post = upost]) auto
next
  assume "map_of (faults s) kc = Some (upre @ u # upost) \<and> countRemaining u = 0"
  then show "\<exists>fv'. map_of (faults (snd (findFault E kc kv s))) kc = Some fv' \<and> u \<in> set fv'"
    by (intro findFault_keeps_unbounded[where fv = "upre @ u # upost"]) auto
next
  assume a: "regex_compiles E ''^/foo$'' \<and> regex_match E ''/foo'' ''^/foo$''"
  show "fst (checkImpl E ''open'' ''/foo''
              (snd (injectError E ''open'' ''^/foo$'' e 1 (FaultInjector True)))) = Throws e"
    using a by (intro scenario_A(1)) auto
  show "fst (checkImpl E ''open'' ''/foo''
              (snd (checkImpl E ''open'' ''/foo''
                (snd (injectError E ''open'' ''^/foo$'' e 1 (FaultInjector True)))))) = Returns ()"
    using a by (intro scenario_A(2)) auto
qed

theorem bounded_fault_fires_count_times_witness:
  "map_of (faults two_faults_state) ''open'' =
     Some ([] @ Fault ''^/foo$'' (Error (RuntimeError ''injected'')) 2 # [Fault ''bar'' Block 0]) \<and>
   map_of (faults two_faults_state) ''open'' =
     Some ([Fault ''^/foo$'' (Error (RuntimeError ''injected'')) 2] @ Fault ''bar'' Block 0 # []) \<and>
   regex_match demo_engine ''/foo'' ''^/foo$'' \<and> \<not> regex_match demo_engine ''bar'' ''^/foo$'' \<and>
   regex_match demo_engine ''bar'' ''bar'' \<and> regex_compiles demo_engine ''^/foo$'' \<and>
   hits demo_engine (Fault ''^/foo$'' (Error (RuntimeError ''injected'')) 2)
     [''bar'', ''/foo'', ''zzz'', ''/foo'', ''/foo''] = 3 \<and>
   fst (findFaultCalls demo_engine ''open'' [''bar'', ''/foo'', ''zzz'', ''/foo'', ''/foo''] two_faults_state) =
     [Block, Error (RuntimeError ''injected''), Unit, Error (RuntimeError ''injected''), Unit] \<and>
   map_of (faults (snd (findFaultCalls demo_engine ''open'' [''bar'', ''/foo'', ''zzz''] two_faults_state)))
       ''open'' =
     Some [Fault ''^/foo$'' (Error (RuntimeError ''injected'')) 1, Fault ''bar'' Block 0] \<and>
   fst (findFaultCalls demo_engine ''open'' [''/foo'', ''/foo''] two_faults_state) =
     [Error (RuntimeError ''injected''), Error (RuntimeError ''injected'')] \<and>
   map_of (faults (snd (findFaultCalls demo_engine ''open'' [''/foo'', ''/foo''] two_faults_state))) ''open'' =
     Some [Fault ''bar'' Block 0] \<and>
   findFaultCalls demo_engine ''open'' [''bar'', ''bar'', ''bar''] two_faults_state =
     ([Block, Block, Block], two_faults_state) \<and>
   fst (checkImpl demo_engine ''open'' ''/foo''
          (snd (injectError demo_engine ''open'' ''^/foo$'' (RuntimeError ''injected'') 1 (FaultInjector True))))
     = Throws (RuntimeError ''injected'')"
  using bounded_fault_fires_count_times
    [where s = two_faults_state and kc = "''open''" and E = demo_engine
       and pre = "[]" and f = "Fault ''^/foo$'' (Error (RuntimeError ''injected'')) 2"
       and post = "[Fault ''bar'' Block 0]" and vs = "[''/foo'', ''/foo'']" and kv = "''bar''"
       and ws = "[''bar'', ''/foo'', ''zzz'']"
       and upre = "[Fault ''^/foo$'' (Error (RuntimeError ''injected'')) 2]"
       and u = "Fault ''bar'' Block 0" and upost = "[]" and uvs = "[''bar'', ''bar'', ''bar'']"
       and e = "RuntimeError ''injected''"]
  by (simp add: two_faults_state_eq demo_engine_simps Fault_def hits_def findFault_def)

text \<open>
  C1 as it is stated fails when an earlier fault of the class matches the value too. With
  an unlimited \<open>.*\<close> fault registered before a \<open>^/foo$\<close> fault of count \<open>1\<close>, the call for
  \<open>/foo\<close> matches the pattern of the second fault, but \<open>findFault\<close> returns the behavior of
  the first one and the second fault keeps its counter.
\<close>

theorem shadowed_fault_does_not_fire:
  "map_of (faults shadow_state) ''open'' =
     Some [Fault ''.*'' (Error (RuntimeError ''first'')) 0,
           Fault ''^/foo$'' (Error (RuntimeError ''second'')) 1] \<and>
   regex_match demo_engine ''/foo'' ''^/foo$'' \<and>
   fst (findFault demo_engine ''open'' ''/foo'' shadow_state)
     \<noteq> behavior (Fault ''^/foo$'' (Error (RuntimeError ''second'')) 1) \<and>
   snd (findFault demo_engine ''open'' ''/foo'' shadow_state) = shadow_state"
  by (simp add: shadow_state_eq demo_engine_simps Fault_def findFault_def)

text \<open>
  C2. \<open>findFault\<close> returns \<open>Unit\<close> (the NoOp behavior) when the class has no entry;
  otherwise it returns the behavior of the first fault of the class's list, front to back,
  whose pattern matches the whole value, and \<open>Unit\<close> when there is none. The faults before the
  first match do not matter, and of two registered faults that both match, the one
  registered first decides.
\<close>

theorem findFault_first_match_wins:
  "fst (findFault E keyClass kv s) =
     (case map_of (faults s) keyClass of
        None \<Rightarrow> Unit
      | Some faultVector \<Rightarrow>
          (case find (\<lambda>f. regex_match E kv (keyValueRegex f)) faultVector of
             None \<Rightarrow> Unit
           | Some f \<Rightarrow> behavior f))
   \<and> (map_of (faults s) keyClass = Some (pre @ f # post) \<and>
      (\<forall>g\<in>set pre. \<not> regex_match E kv (keyValueRegex g)) \<and> regex_match E kv (keyValueRegex f)
    \<longrightarrow> fst (findFault E keyClass kv s) = behavior f)
   \<and> (enabled s \<and> regex_compiles E ra \<and> regex_compiles E rb \<and> regex_match E kv ra \<and>
      (\<forall>g\<in>set (case map_of (faults s) keyClass of None \<Rightarrow> [] | Some v \<Rightarrow> v).
          \<not> regex_match E kv (keyValueRegex g))
    \<longrightarrow> fst (findFault E keyClass kv
              (snd (injectFault E keyClass rb bb nb (snd (injectFault E keyClass ra ba na s))))) = ba)"
proof (intro conjI impI)
  show "fst (findFault E keyClass kv s) =
     (case map_of (faults s) keyClass of
        None \<Rightarrow> Unit
      | Some faultVector \<Rightarrow>
          (case find (\<lambda>f. regex_match E kv (keyValueRegex f)) faultVector of
             None \<Rightarrow> Unit
           | Some f \<Rightarrow> behavior f))"
    by (rule findFault_result)
next
  assume "map_of (faults s) keyClass = Some (pre @ f # post) \<and>
      (\<forall>g\<in>set pre. \<not> regex_match E kv (keyValueRegex g)) \<and> regex_match E kv (keyValueRegex f)"
  then show "fst (findFault E keyClass kv s) = behavior f"
    by (intro findFault_first_match[where pre = pre and post = post]) auto
next
  assume "enabled s \<and> regex_compiles E ra \<and> regex_compiles E rb \<and> regex_match E kv ra \<and>
      (\<forall>g\<in>set (case map_of (faults s) keyClass of None \<Rightarrow> [] | Some v \<Rightarrow> v).
          \<not> regex_match E kv (keyValueRegex g))"
  then show "fst (findFault E keyClass kv
              (snd (injectFault E keyClass rb bb nb (snd (injectFault E keyClass ra ba na s))))) = ba"
    by (intro registration_order) auto
qed

theorem findFault_first_match_wins_witness:
  "map_of (faults two_faults_state) ''open'' =
     Some ([Fault ''^/foo$'' (Error (RuntimeError ''injected'')) 2] @ Fault ''bar'' Block 0 # []) \<and>
   \<not> regex_match demo_engine ''bar'' ''^/foo$'' \<and> regex_match demo_engine ''bar'' ''bar'' \<and>
   enabled two_faults_state \<and> regex_compiles demo_engine ''.*'' \<and> regex_compiles demo_engine ''bar'' \<and>
   fst (findFault demo_engine ''open'' ''bar'' two_faults_state) = Block \<and>
   fst (findFault demo_engine ''other'' ''bar'' two_faults_state) = Unit \<and>
   fst (findFault demo_engine ''other'' ''bar''
          (snd (injectFault demo_engine ''other'' ''bar'' Kill 0
             (snd (injectFault demo_engine ''other'' ''.*'' (Delay 5 None) 1 two_faults_state)))))
     = Delay 5 None"
  using findFault_first_match_wins
    [where E = demo_engine and keyClass = "''open''" and kv = "''bar''" and s = two_faults_state
       and pre = "[Fault ''^/foo$'' (Error (RuntimeError ''injected'')) 2]"
       and f = "Fault ''bar'' Block 0" and post = "[]"]
    findFault_first_match_wins
    [where E = demo_engine and keyClass = "''other''" and kv = "''bar''" and s = two_faults_state
       and ra = "''.*''" and rb = "''bar''" and ba = "Delay 5 None" and na = 1 and bb = Kill and nb = 0]
  by (simp add: two_faults_state_eq demo_engine_simps Fault_def)

text \<open>
  C3. The invariant does not hold after \<open>findFault\<close>. After \<open>injectError\<close> for class
  \<open>open\<close>, pattern \<open>^/foo$\<close> and count \<open>1\<close> no class entry is empty; \<open>findFault\<close> for
  \<open>/foo\<close> returns the error, erases the expired fault from the vector and leaves the entry
  of class \<open>open\<close> in the map with an empty vector. \<open>removeFault\<close> on the same state
  erases the entry of the class. The lemmas \<open>no_empty_class_removeFault\<close>,
  \<open>no_empty_class_injectFault\<close>, \<open>no_empty_class_addBlockedFault\<close>,
  \<open>no_empty_class_unblock\<close> and \<open>no_empty_class_unblockAllImpl\<close> show that the other
  operations keep the invariant.
\<close>

theorem findFault_leaves_empty_class:
  "no_empty_class expiring_state \<and>
   fst (findFault demo_engine ''open'' ''/foo'' expiring_state) = Error (RuntimeError ''injected'') \<and>
   faults (snd (findFault demo_engine ''open'' ''/foo'' expiring_state)) = [(''open'', [])] \<and>
   \<not> no_empty_class (snd (findFault demo_engine ''open'' ''/foo'' expiring_state)) \<and>
   faults (snd (removeFault ''open'' ''^/foo$'' expiring_state)) = []"
  by (simp add: expiring_state_eq no_empty_class_def findFault_def removeFault_def Fault_def
      demo_engine_simps)

text \<open>
  C4. \<open>checkAsyncImpl\<close> turns the behavior that \<open>findFault\<close> returns into its effect.
  \<open>Unit\<close>, which is also the result when the class has no entry or no fault matches: an
  immediate success. \<open>Error cause\<close>: an immediate failure that carries \<open>cause\<close>.
  \<open>Block\<close>: a new promise is made, the entry of the value with that promise is appended
  to the blocked checks of the class (the other classes keep theirs), and the future that
  is returned waits for the promise, which is not resolved.
\<close>

theorem checkAsync_maps_behavior:
  "(fst (findFault E keyClass kv s) = Unit
    \<longrightarrow> checkAsyncImpl E keyClass kv s = (Returns (Immediate Value), snd (findFault E keyClass kv s)))
   \<and> (map_of (faults s) keyClass = None \<or>
      (\<exists>fv. map_of (faults s) keyClass = Some fv \<and>
            (\<forall>g\<in>set fv. \<not> regex_match E kv (keyValueRegex g)))
    \<longrightarrow> checkAsyncImpl E keyClass kv s = (Returns (Immediate Value), s))
   \<and> (fst (findFault E keyClass kv s) = Error cause
    \<longrightarrow> checkAsyncImpl E keyClass kv s =
          (Returns (Immediate (Exception cause)), snd (findFault E keyClass kv s)))
   \<and> (fst (findFault E keyClass kv s) = Block
    \<longrightarrow> fst (checkAsyncImpl E keyClass kv s) = Returns (Deferred (PromiseFuture (length (promises s)))) \<and>
        promises (snd (checkAsyncImpl E keyClass kv s)) = promises s @ [Unfulfilled] \<and>
        promises (snd (checkAsyncImpl E keyClass kv s)) ! length (promises s) = Unfulfilled \<and>
        map_of (blockedChecks (snd (checkAsyncImpl E keyClass kv s))) keyClass =
          Some ((case map_of (blockedChecks s) keyClass of None \<Rightarrow> [] | Some v \<Rightarrow> v) @
                [\<lparr>keyValue = kv, promise = length (promises s)\<rparr>]) \<and>
        (\<forall>k. k \<noteq> keyClass \<longrightarrow>
           map_of (blockedChecks (snd (checkAsyncImpl E keyClass kv s))) k = map_of (blockedChecks s) k) \<and>
        getBlockedFaults keyClass (snd (checkAsyncImpl E keyClass kv s)) =
          getBlockedFaults keyClass s @ [kv] \<and>
        faults (snd (checkAsyncImpl E keyClass kv s)) = faults (snd (findFault E keyClass kv s)) \<and>
        getTry (Deferred (PromiseFuture (length (promises s))))
          (promises (snd (checkAsyncImpl E keyClass kv s))) = Waits (length (promises s)))"
proof (intro conjI impI)
  assume "fst (findFault E keyClass kv s) = Unit"
  then show "checkAsyncImpl E keyClass kv s = (Returns (Immediate Value), snd (findFault E keyClass kv s))"
    by (rule checkAsyncImpl_cases)
next
  assume "map_of (faults s) keyClass = None \<or>
      (\<exists>fv. map_of (faults s) keyClass = Some fv \<and>
            (\<forall>g\<in>set fv. \<not> regex_match E kv (keyValueRegex g)))"
  then have "findFault E keyClass kv s = (Unit, s)" by (rule findFault_no_match)
  then show "checkAsyncImpl E keyClass kv s = (Returns (Immediate Value), s)"
    by (simp add: checkAsyncImpl_def)
next
  assume "fst (findFault E keyClass kv s) = Error cause"
  then show "checkAsyncImpl E keyClass kv s =
          (Returns (Immediate (Exception cause)), snd (findFault E keyClass kv s))"
    by (rule checkAsyncImpl_cases)
next
  assume "fst (findFault E keyClass kv s) = Block"
  then have c: "checkAsyncImpl E keyClass kv s =
       (Returns (Deferred (PromiseFuture (length (promises (snd (findFault E keyClass kv s)))))),
        snd (addBlockedFault keyClass kv (snd (findFault E keyClass kv s))))"
    by (rule checkAsyncImpl_cases)
  show "fst (checkAsyncImpl E keyClass kv s) = Returns (Deferred (PromiseFuture (length (promises s))))"
    unfolding c by (simp add: findFault_frame_fields)
  show "promises (snd (checkAsyncImpl E keyClass kv s)) = promises s @ [Unfulfilled]"
    unfolding c by (simp add: addBlockedFault_fields findFault_frame_fields)
  show "promises (snd (checkAsyncImpl E keyClass kv s)) ! length (promises s) = Unfulfilled"
    unfolding c by (simp add: addBlockedFault_fields findFault_frame_fields)
  show "map_of (blockedChecks (snd (checkAsyncImpl E keyClass kv s))) keyClass =
          Some ((case map_of (blockedChecks s) keyClass of None \<Rightarrow> [] | Some v \<Rightarrow> v) @
                [\<lparr>keyValue = kv, promise = length (promises s)\<rparr>])"
    unfolding c by (simp add: addBlockedFault_fields findFault_frame_fields)
  show "\<forall>k. k \<noteq> keyClass \<longrightarrow>
           map_of (blockedChecks (snd (checkAsyncImpl E keyClass kv s))) k = map_of (blockedChecks s) k"
    unfolding c by (simp add: addBlockedFault_fields findFault_frame_fields)
  show "getBlockedFaults keyClass (snd (checkAsyncImpl E keyClass kv s)) =
          getBlockedFaults keyClass s @ [kv]"
    unfolding c getBlockedFaults_def
    by (simp add: addBlockedFault_fields findFault_frame_fields split: option.splits)
  show "faults (snd (checkAsyncImpl E keyClass kv s)) = faults (snd (findFault E keyClass kv s))"
    unfolding c by (simp add: addBlockedFault_fields)
  show "getTry (Deferred (PromiseFuture (length (promises s))))
          (promises (snd (checkAsyncImpl E keyClass kv s))) = Waits (length (promises s))"
    unfolding c by (simp add: addBlockedFault_fields findFault_frame_fields)
qed

theorem checkAsync_maps_behavior_witness:
  "fst (findFault demo_engine ''open'' ''zzz'' two_faults_state) = Unit \<and>
   fst (findFault demo_engine ''open'' ''/foo'' two_faults_state) = Error (RuntimeError ''injected'') \<and>
   fst (findFault demo_engine ''open'' ''bar'' two_faults_state) = Block \<and>
   map_of (faults two_faults_state) ''close'' = None \<and>
   checkAsyncImpl demo_engine ''open'' ''zzz'' two_faults_state =
     (Returns (Immediate Value), two_faults_state) \<and>
   checkAsyncImpl demo_engine ''close'' ''/foo'' two_faults_state =
     (Returns (Immediate Value), two_faults_state) \<and>
   fst (checkAsyncImpl demo_engine ''open'' ''/foo'' two_faults_state) =
     Returns (Immediate (Exception (RuntimeError ''injected''))) \<and>
   fst (checkAsyncImpl demo_engine ''open'' ''bar'' two_faults_state) =
     Returns (Deferred (PromiseFuture 0)) \<and>
   promises (snd (checkAsyncImpl demo_engine ''open'' ''bar'' two_faults_state)) = [Unfulfilled] \<and>
   blockedChecks (snd (checkAsyncImpl demo_engine ''open'' ''bar'' two_faults_state)) =
     [(''open'', [\<lparr>keyValue = ''bar'', promise = 0\<rparr>])]"
  using checkAsync_maps_behavior
      [where s = two_faults_state and E = demo_engine and keyClass = "''open''" and kv = "''zzz''"]
    checkAsync_maps_behavior
      [where s = two_faults_state and E = demo_engine and keyClass = "''close''" and kv = "''/foo''"]
    checkAsync_maps_behavior
      [where s = two_faults_state and E = demo_engine and keyClass = "''open''" and kv = "''/foo''"
         and cause = "RuntimeError ''injected''"]
    checkAsync_maps_behavior
      [where s = two_faults_state and E = demo_engine and keyClass = "''open''" and kv = "''bar''"]
  by (simp add: two_faults_state_eq demo_engine_simps Fault_def checkAsyncImpl_def findFault_def
      addBlockedFault_def)

text \<open>
  C5. For a class with blocked checks and a pattern that compiles, \<open>extractBlockedChecks\<close>
  returns the blocked checks of the class whose value matches the pattern, in their order;
  the class keeps the other checks, in their order, and its entry is erased when none is
  left; the other classes are untouched. \<open>unblock\<close> returns the number of extracted
  checks and resolves the promise of each with success, \<open>unblockWithError\<close> with the
  given cause; the promises of the checks that stay are still unresolved. For a class
  without an entry both return \<open>0\<close> and change nothing.
\<close>

theorem unblock_extracts_matching:
  "(blocked_ok s \<and> map_of (blockedChecks s) keyClass = Some blocked \<and> regex_compiles E regex
    \<longrightarrow> fst (extractBlockedChecks E keyClass regex s) = Inr (matchingChecks E regex blocked) \<and>
        fst (unblock E keyClass regex s) = Inr (length (matchingChecks E regex blocked)) \<and>
        map_of (blockedChecks (snd (unblock E keyClass regex s))) keyClass =
          (if otherChecks E regex blocked = [] then None else Some (otherChecks E regex blocked)) \<and>
        (\<forall>k. k \<noteq> keyClass \<longrightarrow>
           map_of (blockedChecks (snd (unblock E keyClass regex s))) k = map_of (blockedChecks s) k) \<and>
        (\<forall>c\<in>set (matchingChecks E regex blocked).
           promises (snd (unblock E keyClass regex s)) ! promise c = Fulfilled Value) \<and>
        (\<forall>c\<in>set (otherChecks E regex blocked).
           promises (snd (unblock E keyClass regex s)) ! promise c = Unfulfilled) \<and>
        fst (unblockWithError E keyClass regex cause s) = Inr (length (matchingChecks E regex blocked)) \<and>
        blockedChecks (snd (unblockWithError E keyClass regex cause s)) =
          blockedChecks (snd (unblock E keyClass regex s)) \<and>
        (\<forall>c\<in>set (matchingChecks E regex blocked).
           promises (snd (unblockWithError E keyClass regex cause s)) ! promise c =
             Fulfilled (Exception cause)) \<and>
        (\<forall>c\<in>set (otherChecks E regex blocked).
           promises (snd (unblockWithError E keyClass regex cause s)) ! promise c = Unfulfilled))
   \<and> (map_of (blockedChecks s) otherClass = None
    \<longrightarrow> unblock E otherClass regex s = (Inr 0, s) \<and>
        unblockWithError E otherClass regex cause s = (Inr 0, s))"
proof (intro conjI impI)
  assume a: "blocked_ok s \<and> map_of (blockedChecks s) keyClass = Some blocked \<and> regex_compiles E regex"
  then have ok: "blocked_ok s" and cl: "map_of (blockedChecks s) keyClass = Some blocked"
    and co: "regex_compiles E regex" by simp_all
  note u = unblock_with[OF ok cl co unblock_eq(1)[OF cl co]]
  note e = unblock_with[OF ok cl co unblock_eq(2)[OF cl co, of cause]]
  show "fst (extractBlockedChecks E keyClass regex s) = Inr (matchingChecks E regex blocked)"
    by (simp add: extractBlockedChecks_spec[OF cl co])
  show "fst (unblock E keyClass regex s) = Inr (length (matchingChecks E regex blocked))"
    by (rule u)
  show "map_of (blockedChecks (snd (unblock E keyClass regex s))) keyClass =
          (if otherChecks E regex blocked = [] then None else Some (otherChecks E regex blocked))"
    by (rule u)
  show "\<forall>k. k \<noteq> keyClass \<longrightarrow>
           map_of (blockedChecks (snd (unblock E keyClass regex s))) k = map_of (blockedChecks s) k"
    by (rule u)
  show "\<forall>c\<in>set (matchingChecks E regex blocked).
           promises (snd (unblock E keyClass regex s)) ! promise c = Fulfilled Value"
    by (rule u)
  show "\<forall>c\<in>set (otherChecks E regex blocked).
           promises (snd (unblock E keyClass regex s)) ! promise c = Unfulfilled"
    by (rule u)
  show "fst (unblockWithError E keyClass regex cause s) = Inr (length (matchingChecks E regex blocked))"
    by (rule e)
  show "blockedChecks (snd (unblockWithError E keyClass regex cause s)) =
          blockedChecks (snd (unblock E keyClass regex s))"
    by (simp add: unblock_eq[OF cl co])
  show "\<forall>c\<in>set (matchingChecks E regex blocked).
           promises (snd (unblockWithError E keyClass regex cause s)) ! promise c =
             Fulfilled (Exception cause)"
    by (rule e)
  show "\<forall>c\<in>set (otherChecks E regex blocked).
           promises (snd (unblockWithError E keyClass regex cause s)) ! promise c = Unfulfilled"
    by (rule e)
next
  assume n: "map_of (blockedChecks s) otherClass = None"
  show "unblock E otherClass regex s = (Inr 0, s)" using n by (rule unblock_no_class)
  show "unblockWithError E otherClass regex cause s = (Inr 0, s)" using n by (rule unblock_no_class)
qed

theorem unblock_extracts_matching_witness:
  "blocked_ok blocked_state \<and>
   map_of (blockedChecks blocked_state) ''read'' =
     Some [\<lparr>keyValue = ''f1'', promise = 0\<rparr>, \<lparr>keyValue = ''f2'', promise = 1\<rparr>,
           \<lparr>keyValue = ''f1'', promise = 2\<rparr>] \<and>
   regex_compiles demo_engine ''f1'' \<and>
   map_of (blockedChecks blocked_state) ''write'' = None \<and>
   fst (extractBlockedChecks demo_engine ''read'' ''f1'' blocked_state) =
     Inr [\<lparr>keyValue = ''f1'', promise = 0\<rparr>, \<lparr>keyValue = ''f1'', promise = 2\<rparr>] \<and>
   fst (unblock demo_engine ''read'' ''f1'' blocked_state) = Inr 2 \<and>
   map_of (blockedChecks (snd (unblock demo_engine ''read'' ''f1'' blocked_state))) ''read'' =
     Some [\<lparr>keyValue = ''f2'', promise = 1\<rparr>] \<and>
   promises (snd (unblock demo_engine ''read'' ''f1'' blocked_state)) =
     [Fulfilled Value, Unfulfilled, Fulfilled Value, Unfulfilled] \<and>
   unblock demo_engine ''write'' ''f1'' blocked_state = (Inr 0, blocked_state)"
  using unblock_extracts_matching [where s = blocked_state and keyClass = "''read''" and E = demo_engine
      and regex = "''f1''" and otherClass = "''write''"
      and blocked = "[\<lparr>keyValue = ''f1'', promise = 0\<rparr>, \<lparr>keyValue = ''f2'', promise = 1\<rparr>,
           \<lparr>keyValue = ''f1'', promise = 2\<rparr>]"] blocked_ok_examples(2)
  by (simp add: blocked_state_eq demo_engine_simps matchingChecks_def otherChecks_def
      unblock_def extractBlockedChecks_def)

text \<open>
  C6. \<open>unblockAll\<close> and \<open>unblockAllWithError\<close> leave the map of blocked checks empty,
  return the number of blocked checks of all classes together, and resolve the promise of
  every one of them, with success or with the given cause; no other promise and no fault
  is touched.
\<close>

theorem unblockAll_resolves_everything:
  "blocked_ok s \<longrightarrow>
     blockedChecks (snd (unblockAll s)) = [] \<and>
     blockedChecks (snd (unblockAllWithError cause s)) = [] \<and>
     getBlockedFaults keyClass (snd (unblockAll s)) = [] \<and>
     getBlockedFaults keyClass (snd (unblockAllWithError cause s)) = [] \<and>
     fst (unblockAll s) = sum_list (map (\<lambda>classEntry. length (snd classEntry)) (blockedChecks s)) \<and>
     fst (unblockAllWithError cause s) =
       sum_list (map (\<lambda>classEntry. length (snd classEntry)) (blockedChecks s)) \<and>
     (\<forall>c\<in>set (allBlocked (blockedChecks s)).
        promises (snd (unblockAll s)) ! promise c = Fulfilled Value \<and>
        promises (snd (unblockAllWithError cause s)) ! promise c = Fulfilled (Exception cause)) \<and>
     (\<forall>p. p \<notin> promise ` set (allBlocked (blockedChecks s)) \<longrightarrow>
        promises (snd (unblockAll s)) ! p = promises s ! p \<and>
        promises (snd (unblockAllWithError cause s)) ! p = promises s ! p) \<and>
     faults (snd (unblockAll s)) = faults s \<and>
     faults (snd (unblockAllWithError cause s)) = faults s"
proof
  assume ok: "blocked_ok s"
  note n = unblockAllImpl_spec[OF ok, of None, folded unblockAll_def]
  note e = unblockAllImpl_spec[OF ok, of "Some cause", folded unblockAllWithError_def]
  show "blockedChecks (snd (unblockAll s)) = [] \<and>
     blockedChecks (snd (unblockAllWithError cause s)) = [] \<and>
     getBlockedFaults keyClass (snd (unblockAll s)) = [] \<and>
     getBlockedFaults keyClass (snd (unblockAllWithError cause s)) = [] \<and>
     fst (unblockAll s) = sum_list (map (\<lambda>classEntry. length (snd classEntry)) (blockedChecks s)) \<and>
     fst (unblockAllWithError cause s) =
       sum_list (map (\<lambda>classEntry. length (snd classEntry)) (blockedChecks s)) \<and>
     (\<forall>c\<in>set (allBlocked (blockedChecks s)).
        promises (snd (unblockAll s)) ! promise c = Fulfilled Value \<and>
        promises (snd (unblockAllWithError cause s)) ! promise c = Fulfilled (Exception cause)) \<and>
     (\<forall>p. p \<notin> promise ` set (allBlocked (blockedChecks s)) \<longrightarrow>
        promises (snd (unblockAll s)) ! p = promises s ! p \<and>
        promises (snd (unblockAllWithError cause s)) ! p = promises s ! p) \<and>
     faults (snd (unblockAll s)) = faults s \<and>
     faults (snd (unblockAllWithError cause s)) = faults s"
    using n(1,2,3,4,6) e(1,2,3,4,6)
    by (simp add: getBlockedFaults_def resolution_def)
qed

theorem unblockAll_resolves_everything_witness:
  "blocked_ok blocked_state \<and>
   unblockAll blocked_state =
     (4, blocked_state\<lparr>blockedChecks := [],
           promises := [Fulfilled Value, Fulfilled Value, Fulfilled Value, Fulfilled Value]\<rparr>) \<and>
   fst (unblockAllWithError (OtherException ''stop'') blocked_state) = 4 \<and>
   promises (snd (unblockAllWithError (OtherException ''stop'') blocked_state)) ! 3 =
     Fulfilled (Exception (OtherException ''stop''))"
  using unblockAll_resolves_everything [where s = blocked_state and cause = "OtherException ''stop''" and keyClass = "''read''"]
    blocked_ok_examples(2)
  by (simp add: blocked_state_eq unblockAll_def unblockAllWithError_def unblockAllImpl_def)

text \<open>
  C7. \<open>removeFault\<close> compares the given text with the pattern text of the faults of the
  class; no regex is matched. It erases the first fault whose pattern text is the given
  text, erases the entry of the class when the vector becomes empty, leaves the other
  classes and the rest of the state as they are, and returns \<open>True\<close>. When the class has
  no entry or no fault of the class has this pattern text, it returns \<open>False\<close> and the
  state is unchanged.
\<close>

theorem removeFault_by_pattern_text:
  "(map_of (faults s) keyClass = Some (pre @ f # post) \<and> keyValueRegex f = regex \<and>
      (\<forall>g\<in>set pre. keyValueRegex g \<noteq> regex)
    \<longrightarrow> fst (removeFault keyClass regex s) = True \<and>
        map_of (faults (snd (removeFault keyClass regex s))) keyClass =
          (if pre @ post = [] then None else Some (pre @ post)) \<and>
        (\<forall>k. k \<noteq> keyClass \<longrightarrow>
           map_of (faults (snd (removeFault keyClass regex s))) k = map_of (faults s) k) \<and>
        snd (removeFault keyClass regex s) =
          s\<lparr>faults := faults (snd (removeFault keyClass regex s))\<rparr>)
   \<and> (map_of (faults s) otherClass = None \<or>
      (\<exists>fv. map_of (faults s) otherClass = Some fv \<and> (\<forall>g\<in>set fv. keyValueRegex g \<noteq> otherText))
    \<longrightarrow> removeFault otherClass otherText s = (False, s))"
proof (intro conjI impI)
  assume a: "map_of (faults s) keyClass = Some (pre @ f # post) \<and> keyValueRegex f = regex \<and>
      (\<forall>g\<in>set pre. keyValueRegex g \<noteq> regex)"
  then have r: "removeFault keyClass regex s =
     (True, s\<lparr>faults := (if pre @ post = [] then AList.delete keyClass (faults s)
                         else AList.update keyClass (pre @ post) (faults s))\<rparr>)"
    by (intro removeFault_removes) auto
  show "fst (removeFault keyClass regex s) = True" using r by simp
  show "map_of (faults (snd (removeFault keyClass regex s))) keyClass =
          (if pre @ post = [] then None else Some (pre @ post))"
    unfolding r by (simp add: update_conv' delete_conv')
  show "\<forall>k. k \<noteq> keyClass \<longrightarrow>
           map_of (faults (snd (removeFault keyClass regex s))) k = map_of (faults s) k"
    unfolding r by (simp add: update_conv' delete_conv')
  show "snd (removeFault keyClass regex s) =
          s\<lparr>faults := faults (snd (removeFault keyClass regex s))\<rparr>"
    unfolding r by simp
next
  assume "map_of (faults s) otherClass = None \<or>
      (\<exists>fv. map_of (faults s) otherClass = Some fv \<and> (\<forall>g\<in>set fv. keyValueRegex g \<noteq> otherText))"
  then show "removeFault otherClass otherText s = (False, s)"
    by (rule removeFault_not_found)
qed

theorem removeFault_by_pattern_text_witness:
  "map_of (faults shadow_state) ''open'' =
     Some ([Fault ''.*'' (Error (RuntimeError ''first'')) 0] @
           Fault ''^/foo$'' (Error (RuntimeError ''second'')) 1 # []) \<and>
   keyValueRegex (Fault ''^/foo$'' (Error (RuntimeError ''second'')) 1) = ''^/foo$'' \<and>
   keyValueRegex (Fault ''.*'' (Error (RuntimeError ''first'')) 0) \<noteq> ''^/foo$'' \<and>
   removeFault ''open'' ''^/foo$'' shadow_state =
     (True, shadow_state\<lparr>faults := [(''open'', [Fault ''.*'' (Error (RuntimeError ''first'')) 0])]\<rparr>) \<and>
   regex_match demo_engine ''/foo'' ''^/foo$'' \<and>
   removeFault ''open'' ''/foo'' shadow_state = (False, shadow_state) \<and>
   removeFault ''close'' ''.*'' shadow_state = (False, shadow_state) \<and>
   faults (snd (removeFault ''open'' ''.*''
     (snd (removeFault ''open'' ''^/foo$'' shadow_state)))) = []"
  using removeFault_by_pattern_text [where s = shadow_state and keyClass = "''open''" and regex = "''^/foo$''"
      and pre = "[Fault ''.*'' (Error (RuntimeError ''first'')) 0]"
      and f = "Fault ''^/foo$'' (Error (RuntimeError ''second'')) 1" and post = "[]"
      and otherClass = "''open''" and otherText = "''/foo''"]
    removeFault_by_pattern_text [where s = shadow_state and otherClass = "''close''" and otherText = "''.*''"]
  by (simp add: shadow_state_eq demo_engine_simps Fault_def removeFault_def)

text \<open>
  C8. Each of the six registration operations throws the error
  \<open>fault injection is disabled\<close> and leaves the state as it is exactly when the injector is
  disabled. The flag is the one given to the constructor: registration does not change it.
  The three check operations do not read the flag: on a state with the flag set to any
  value they give the same result and the same state, up to the flag.
\<close>

theorem enable_flag_guards_registration_only:
  "((fst (injectError E keyClass regex error count s) = Inl disabled_error \<and>
     snd (injectError E keyClass regex error count s) = s) \<longleftrightarrow> \<not> enabled s)
   \<and> ((fst (injectBlock E keyClass regex count s) = Inl disabled_error \<and>
     snd (injectBlock E keyClass regex count s) = s) \<longleftrightarrow> \<not> enabled s)
   \<and> ((fst (injectDelay E keyClass regex duration count s) = Inl disabled_error \<and>
     snd (injectDelay E keyClass regex duration count s) = s) \<longleftrightarrow> \<not> enabled s)
   \<and> ((fst (injectDelayedError E keyClass regex duration error count s) = Inl disabled_error \<and>
     snd (injectDelayedError E keyClass regex duration error count s) = s) \<longleftrightarrow> \<not> enabled s)
   \<and> ((fst (injectKill E keyClass regex count s) = Inl disabled_error \<and>
     snd (injectKill E keyClass regex count s) = s) \<longleftrightarrow> \<not> enabled s)
   \<and> ((fst (injectNoop E keyClass regex count s) = Inl disabled_error \<and>
     snd (injectNoop E keyClass regex count s) = s) \<longleftrightarrow> \<not> enabled s)
   \<and> enabled (FaultInjector flag) = flag
   \<and> enabled (snd (injectFault E keyClass regex b count s)) = enabled s
   \<and> checkAsyncImpl E keyClass kv (s\<lparr>enabled := flag\<rparr>) =
       (fst (checkAsyncImpl E keyClass kv s), (snd (checkAsyncImpl E keyClass kv s))\<lparr>enabled := flag\<rparr>)
   \<and> checkTryImpl E keyClass kv (s\<lparr>enabled := flag\<rparr>) =
       (fst (checkTryImpl E keyClass kv s), (snd (checkTryImpl E keyClass kv s))\<lparr>enabled := flag\<rparr>)
   \<and> checkImpl E keyClass kv (s\<lparr>enabled := flag\<rparr>) =
       (fst (checkImpl E keyClass kv s), (snd (checkImpl E keyClass kv s))\<lparr>enabled := flag\<rparr>)"
  unfolding injectError_def injectBlock_def injectDelay_def injectDelayedError_def injectKill_def
    injectNoop_def
  by (intro conjI injectFault_disabled_iff injectFault_enabled checkAsyncImpl_flag checkTryImpl_flag
      checkImpl_flag) (simp add: FaultInjector_def)

theorem enable_flag_guards_registration_only_witness:
  "\<not> enabled (FaultInjector False) \<and>
   injectError demo_engine ''open'' ''.*'' (RuntimeError ''injected'') 0 (FaultInjector False) =
     (Inl (RuntimeError ''fault injection is disabled''), FaultInjector False) \<and>
   injectNoop demo_engine ''open'' ''.*'' 0 (FaultInjector False) =
     (Inl (RuntimeError ''fault injection is disabled''), FaultInjector False) \<and>
   fst (injectKill demo_engine ''open'' ''.*'' 0 (FaultInjector True)) = Inr () \<and>
   checkImpl demo_engine ''open'' ''/foo'' (two_faults_state\<lparr>enabled := False\<rparr>) =
     (Throws (RuntimeError ''injected''),
      (snd (checkImpl demo_engine ''open'' ''/foo'' two_faults_state))\<lparr>enabled := False\<rparr>)"
  using enable_flag_guards_registration_only
      [where s = "FaultInjector False" and E = demo_engine and keyClass = "''open''"
         and regex = "''.*''" and error = "RuntimeError ''injected''" and count = 0]
    enable_flag_guards_registration_only
      [where s = "FaultInjector True" and E = demo_engine and keyClass = "''open''"
         and regex = "''.*''" and count = 0]
    enable_flag_guards_registration_only
      [where s = two_faults_state and E = demo_engine and keyClass = "''open''"
         and kv = "''/foo''" and flag = False]
  by (simp add: FaultInjector_def disabled_error_def injectError_def injectNoop_def injectKill_def
      injectFault_def demo_engine_simps two_faults_state_eq checkImpl_def checkTryImpl_def
      checkAsyncImpl_def findFault_def Fault_def)

text \<open>
  C9, amended. The destructor resolves the promise of every blocked check of every class
  with the error \<open>std::runtime_error("FaultInjector destroyed")\<close>, which it builds itself:
  the promises it leaves are the same whatever faults are registered. It logs the number
  of blocked checks it failed when that number is not zero. With exactly one blocked check
  pending, that check is failed with the destruction error and the log says one.
  Nothing sets the destruction error apart from an injected error: it is an ordinary
  \<open>runtime_error\<close>, and the same error can be registered with \<open>injectError\<close>.
\<close>

theorem destructor_fails_pending_checks:
  "(blocked_ok s
    \<longrightarrow> (\<forall>c\<in>set (allBlocked (blockedChecks s)).
          promises (snd (destructor s)) ! promise c = Fulfilled (Exception destroyed_error)) \<and>
        blockedChecks (snd (destructor s)) = [] \<and>
        fst (destructor s) =
          (if 0 < sum_list (map (\<lambda>classEntry. length (snd classEntry)) (blockedChecks s))
           then [WARN_destroyed_with_pending
                   (sum_list (map (\<lambda>classEntry. length (snd classEntry)) (blockedChecks s)))]
           else []) \<and>
        promises (snd (destructor (s\<lparr>faults := otherFaults\<rparr>))) = promises (snd (destructor s)))
   \<and> (blocked_ok s \<and> blockedChecks s = [(keyClass, [c])]
    \<longrightarrow> promises (snd (destructor s)) ! promise c = Fulfilled (Exception destroyed_error) \<and>
        fst (destructor s) = [WARN_destroyed_with_pending 1])
   \<and> destroyed_error = RuntimeError ''FaultInjector destroyed''"
proof (intro conjI impI)
  assume ok: "blocked_ok s"
  note e = unblockAllImpl_spec[OF ok, of "Some destroyed_error"]
  show "\<forall>c\<in>set (allBlocked (blockedChecks s)).
          promises (snd (destructor s)) ! promise c = Fulfilled (Exception destroyed_error)"
    using e(3) by (simp add: destructor_eq resolution_def)
  show "blockedChecks (snd (destructor s)) = []"
    using e(1) by (simp add: destructor_eq)
  show "fst (destructor s) =
          (if 0 < sum_list (map (\<lambda>classEntry. length (snd classEntry)) (blockedChecks s))
           then [WARN_destroyed_with_pending
                   (sum_list (map (\<lambda>classEntry. length (snd classEntry)) (blockedChecks s)))]
           else [])"
    by (simp only: destructor_eq length_allBlocked fst_conv)
  show "promises (snd (destructor (s\<lparr>faults := otherFaults\<rparr>))) = promises (snd (destructor s))"
    by (simp add: destructor_eq unblockAllImpl_eq)
next
  assume a: "blocked_ok s \<and> blockedChecks s = [(keyClass, [c])]"
  then have ok: "blocked_ok s" and b: "blockedChecks s = [(keyClass, [c])]" by simp_all
  note e = unblockAllImpl_spec[OF ok, of "Some destroyed_error"]
  show "promises (snd (destructor s)) ! promise c = Fulfilled (Exception destroyed_error)"
    using e(3) b by (simp add: destructor_eq resolution_def allBlocked_def)
  show "fst (destructor s) = [WARN_destroyed_with_pending 1]"
    using b by (simp add: destructor_eq allBlocked_def)
next
  show "destroyed_error = RuntimeError ''FaultInjector destroyed''" by (rule destroyed_error_def)
qed

theorem destructor_fails_pending_checks_witness:
  "blocked_ok one_blocked_state \<and>
   blockedChecks one_blocked_state = [(''read'', [\<lparr>keyValue = ''f1'', promise = 0\<rparr>])] \<and>
   destructor one_blocked_state =
     ([WARN_destroyed_with_pending 1],
      one_blocked_state\<lparr>blockedChecks := [],
        promises := [Fulfilled (Exception (RuntimeError ''FaultInjector destroyed''))]\<rparr>) \<and>
   fst (destructor (FaultInjector True)) = []"
  using destructor_fails_pending_checks [where s = one_blocked_state and keyClass = "''read''"
      and c = "\<lparr>keyValue = ''f1'', promise = 0\<rparr>"] blocked_ok_examples(1)
  by (simp add: one_blocked_state_eq destructor_def unblockAllImpl_def destroyed_error_def
      FaultInjector_def)

text \<open>
  C9 as it is stated fails where it calls the destruction error distinct from any injected
  error. \<open>injectError\<close> accepts \<open>std::runtime_error("FaultInjector destroyed")\<close>; with that
  fault registered for class \<open>open\<close> and one check blocked in class \<open>read\<close>, a check of
  class \<open>open\<close> throws the injected error and the destructor fails the blocked check with
  the destruction error, and the two errors are the same.
\<close>

theorem destruction_error_equals_injected_error:
  "fst (injectError demo_engine ''open'' ''.*'' (RuntimeError ''FaultInjector destroyed'') 0
          (FaultInjector True)) = Inr () \<and>
   map_of (faults same_error_state) ''open'' =
     Some [Fault ''.*'' (Error (RuntimeError ''FaultInjector destroyed'')) 0] \<and>
   blockedChecks same_error_state = [(''read'', [\<lparr>keyValue = ''f1'', promise = 0\<rparr>])] \<and>
   fst (checkImpl demo_engine ''open'' ''/foo'' same_error_state) =
     Throws (RuntimeError ''FaultInjector destroyed'') \<and>
   promises (snd (destructor same_error_state)) =
     [Fulfilled (Exception (RuntimeError ''FaultInjector destroyed''))] \<and>
   behavior (Fault ''.*'' (Error (RuntimeError ''FaultInjector destroyed'')) 0) = Error destroyed_error"
  by (simp add: same_error_state_eq demo_engine_simps Fault_def injectError_def injectFault_def
      FaultInjector_def checkImpl_def checkTryImpl_def checkAsyncImpl_def findFault_def
      destructor_def unblockAllImpl_def destroyed_error_def)

text \<open>
  C10, amended. \<open>injectNoop\<close> appends a fault with behavior \<open>Unit\<close> to the faults of the
  class, as every registration does. When such a fault matches the value and no fault
  registered before it in the class does, \<open>checkAsyncImpl\<close> returns an immediate success,
  the same result as with no fault at all; the counter of the fault is decremented if it is
  bounded, the fault is erased when the counter reaches zero, and the faults registered
  after it are neither used nor changed, whatever their behavior is.
\<close>

theorem noop_fault_shadows_later_faults:
  "(enabled s \<and> regex_compiles E regex
    \<longrightarrow> fst (injectNoop E keyClass regex count s) = Inr () \<and>
        map_of (faults (snd (injectNoop E keyClass regex count s))) keyClass =
          Some ((case map_of (faults s) keyClass of None \<Rightarrow> [] | Some v \<Rightarrow> v) @
                [Fault regex Unit count]))
   \<and> (map_of (faults s) keyClass = Some (pre @ f # post) \<and> behavior f = Unit \<and>
      regex_match E kv (keyValueRegex f) \<and> (\<forall>g\<in>set pre. \<not> regex_match E kv (keyValueRegex g))
    \<longrightarrow> fst (checkAsyncImpl E keyClass kv s) = Returns (Immediate Value) \<and>
        fst (checkAsyncImpl E keyClass kv s) = fst (checkAsyncImpl E keyClass kv (s\<lparr>faults := []\<rparr>)) \<and>
        snd (checkAsyncImpl E keyClass kv s) =
          s\<lparr>faults := AList.update keyClass
               (pre @ (if countRemaining f = 0 then [f]
                       else if countRemaining f = 1 then []
                       else [f\<lparr>countRemaining := countRemaining f - 1\<rparr>]) @ post) (faults s)\<rparr>)"
proof (intro conjI impI)
  assume a: "enabled s \<and> regex_compiles E regex"
  then have i: "injectFault E keyClass regex Unit count s =
     (Inr (), s\<lparr>faults := AList.update keyClass
        ((case map_of (faults s) keyClass of None \<Rightarrow> [] | Some v \<Rightarrow> v) @ [Fault regex Unit count])
        (faults s)\<rparr>)"
    by (intro injectFault_appends) auto
  show "fst (injectNoop E keyClass regex count s) = Inr ()"
    unfolding injectNoop_def i by simp
  show "map_of (faults (snd (injectNoop E keyClass regex count s))) keyClass =
          Some ((case map_of (faults s) keyClass of None \<Rightarrow> [] | Some v \<Rightarrow> v) @
                [Fault regex Unit count])"
    unfolding injectNoop_def i by (simp add: update_conv')
next
  assume "map_of (faults s) keyClass = Some (pre @ f # post) \<and> behavior f = Unit \<and>
      regex_match E kv (keyValueRegex f) \<and> (\<forall>g\<in>set pre. \<not> regex_match E kv (keyValueRegex g))"
  then have c: "checkAsyncImpl E keyClass kv s =
     (Returns (Immediate Value),
      s\<lparr>faults := AList.update keyClass
          (pre @ (if countRemaining f = 0 then [f]
                  else if countRemaining f = 1 then []
                  else [f\<lparr>countRemaining := countRemaining f - 1\<rparr>]) @ post) (faults s)\<rparr>)"
    by (intro checkAsyncImpl_noop_hit) auto
  show "fst (checkAsyncImpl E keyClass kv s) = Returns (Immediate Value)"
    unfolding c by simp
  show "fst (checkAsyncImpl E keyClass kv s) = fst (checkAsyncImpl E keyClass kv (s\<lparr>faults := []\<rparr>))"
    unfolding c by (simp add: checkAsyncImpl_def findFault_def)
  show "snd (checkAsyncImpl E keyClass kv s) =
          s\<lparr>faults := AList.update keyClass
               (pre @ (if countRemaining f = 0 then [f]
                       else if countRemaining f = 1 then []
                       else [f\<lparr>countRemaining := countRemaining f - 1\<rparr>]) @ post) (faults s)\<rparr>"
    unfolding c by simp
qed

theorem noop_fault_shadows_later_faults_witness:
  "enabled (FaultInjector True) \<and> regex_compiles demo_engine ''.*'' \<and>
   map_of (faults noop_state) ''open'' = Some ([] @ Fault ''.*'' Unit 1 # [Fault ''^/foo$'' Kill 0]) \<and>
   behavior (Fault ''.*'' Unit 1) = Unit \<and> regex_match demo_engine ''/foo'' ''.*'' \<and>
   regex_match demo_engine ''/foo'' ''^/foo$'' \<and>
   map_of (faults (snd (injectNoop demo_engine ''open'' ''.*'' 1 (FaultInjector True)))) ''open'' =
     Some [Fault ''.*'' Unit 1] \<and>
   checkAsyncImpl demo_engine ''open'' ''/foo'' noop_state =
     (Returns (Immediate Value), noop_state\<lparr>faults := [(''open'', [Fault ''^/foo$'' Kill 0])]\<rparr>) \<and>
   fst (checkAsyncImpl demo_engine ''open'' ''/foo''
          (snd (checkAsyncImpl demo_engine ''open'' ''/foo'' noop_state))) = Aborts"
  using noop_fault_shadows_later_faults [where s = "FaultInjector True" and E = demo_engine and regex = "''.*''"
      and keyClass = "''open''" and count = 1]
    noop_fault_shadows_later_faults [where s = noop_state and E = demo_engine and keyClass = "''open''" and kv = "''/foo''"
      and pre = "[]" and f = "Fault ''.*'' Unit 1" and post = "[Fault ''^/foo$'' Kill 0]"]
  by (simp add: noop_state_eq demo_engine_simps Fault_def FaultInjector_def checkAsyncImpl_def
      findFault_def)

text \<open>
  C10 as it is stated fails when a fault registered before the NoOp fault matches the value
  too. With an unlimited \<open>Error\<close> fault for \<open>.*\<close>, then a NoOp fault for \<open>.*\<close> with count
  \<open>1\<close>, then a \<open>Kill\<close> fault for \<open>^/foo$\<close>, the NoOp fault matches \<open>/foo\<close> and was
  registered before the \<open>Kill\<close> fault, but \<open>checkAsyncImpl\<close> returns the failure of the
  first fault and the NoOp fault keeps its counter.
\<close>

theorem noop_fault_shadowed_by_earlier_fault:
  "map_of (faults shadowed_noop_state) ''open'' =
     Some [Fault ''.*'' (Error (RuntimeError ''first'')) 0, Fault ''.*'' Unit 1,
           Fault ''^/foo$'' Kill 0] \<and>
   behavior (Fault ''.*'' Unit 1) = Unit \<and>
   regex_match demo_engine ''/foo'' (keyValueRegex (Fault ''.*'' Unit 1)) \<and>
   regex_match demo_engine ''/foo'' (keyValueRegex (Fault ''^/foo$'' Kill 0)) \<and>
   checkAsyncImpl demo_engine ''open'' ''/foo'' shadowed_noop_state =
     (Returns (Immediate (Exception (RuntimeError ''first''))), shadowed_noop_state) \<and>
   fst (checkAsyncImpl demo_engine ''open'' ''/foo'' shadowed_noop_state) \<noteq> Returns (Immediate Value)"
  by (simp add: shadowed_noop_state_eq demo_engine_simps Fault_def checkAsyncImpl_def findFault_def)

end
